theory Spec2Isabelle
  imports Complex_Main "HOL-Library.Sublist" "HOL-Library.Log_Nat"
begin

section \<open>Quiz taking (src/components/QuizTaking.tsx)\<close>

text \<open>
  The component keeps its state in seven \<open>useState\<close> cells. Numbers that only ever hold
  an array index or a counter that starts at 0 are \<open>nat\<close>; \<open>credits\<close> is an \<open>int\<close>, so
  that its sign is a property of the code and not of the type; a \<open>number\<close> field that
  comes from the generated questions is a \<open>rat\<close> (every finite double is one).
  Toasts are output only and are left out of this part.
\<close>

record Question =
  question :: string
  options :: "string list"
  correctAnswerIndex :: rat
  hint :: string

record UserAnswer =
  questionIndex :: nat
  selectedAnswer :: nat
  isCorrect :: bool
  usedHint :: bool

text \<open>
  \<open>timers\<close> holds the callbacks handed to \<open>setTimeout(..., 2000)\<close> that have not run yet,
  oldest first. The only value such a callback closes over is the \<open>isLastQuestion\<close> of
  the render in which it was created.
\<close>

record quiz_state =
  currentQuestionIndex :: nat
  userAnswers :: "UserAnswer list"
  selectedOption :: "nat option"
  showAnswer :: bool
  credits :: int
  isQuizComplete :: bool
  usedHints :: "nat set"
  timers :: "bool list"

definition initial_state :: quiz_state where
  "initial_state =
     \<lparr>currentQuestionIndex = 0, userAnswers = [], selectedOption = None, showAnswer = False,
      credits = 10, isQuizComplete = False, usedHints = {}, timers = []\<rparr>"

text \<open>\<open>questions[currentQuestionIndex]\<close> is \<open>undefined\<close> out of range.\<close>

definition currentQuestion :: "Question list \<Rightarrow> quiz_state \<Rightarrow> Question option" where
  "currentQuestion qs s =
     (if currentQuestionIndex s < length qs then Some (qs ! currentQuestionIndex s) else None)"

definition isLastQuestion :: "Question list \<Rightarrow> quiz_state \<Rightarrow> bool" where
  "isLastQuestion qs s \<longleftrightarrow> int (currentQuestionIndex s) = int (length qs) - 1"

definition hasAnswered :: "quiz_state \<Rightarrow> UserAnswer option" where
  "hasAnswered s = find (\<lambda>a. questionIndex a = currentQuestionIndex s) (userAnswers s)"

definition canUseHint :: "quiz_state \<Rightarrow> bool" where
  "canUseHint s \<longleftrightarrow> 2 \<le> credits s \<and> currentQuestionIndex s \<notin> usedHints s"

definition handleOptionSelect :: "nat \<Rightarrow> quiz_state \<Rightarrow> quiz_state" where
  "handleOptionSelect optionIndex s =
     (if showAnswer s then s else s\<lparr>selectedOption := Some optionIndex\<rparr>)"

text \<open>The navigation shared by the timer callback and the already-answered branch.\<close>

definition advance :: "bool \<Rightarrow> quiz_state \<Rightarrow> quiz_state" where
  "advance isLast s =
     (if isLast then s\<lparr>isQuizComplete := True\<rparr>
      else s\<lparr>currentQuestionIndex := currentQuestionIndex s + 1,
             selectedOption := None, showAnswer := False\<rparr>)"

text \<open>
  Reading \<open>currentQuestion.correctAnswerIndex\<close> of \<open>undefined\<close> throws before any state
  setter has run, so the state is unchanged there.
\<close>

definition handleNextQuestion :: "Question list \<Rightarrow> quiz_state \<Rightarrow> quiz_state" where
  "handleNextQuestion qs s =
     (if selectedOption s = None \<and> hasAnswered s = None then s
      else if hasAnswered s = None \<and> selectedOption s \<noteq> None then
        (case currentQuestion qs s of
           None \<Rightarrow> s
         | Some q \<Rightarrow>
             let sel = the (selectedOption s);
                 newAnswer = \<lparr>questionIndex = currentQuestionIndex s,
                              selectedAnswer = sel,
                              isCorrect = (of_nat sel = correctAnswerIndex q),
                              usedHint = (currentQuestionIndex s \<in> usedHints s)\<rparr>
             in s\<lparr>userAnswers := userAnswers s @ [newAnswer], showAnswer := True,
                   timers := timers s @ [isLastQuestion qs s]\<rparr>)
      else advance (isLastQuestion qs s) s)"

definition handlePreviousQuestion :: "quiz_state \<Rightarrow> quiz_state" where
  "handlePreviousQuestion s =
     (if 0 < currentQuestionIndex s
      then s\<lparr>currentQuestionIndex := currentQuestionIndex s - 1,
             selectedOption := None, showAnswer := False\<rparr>
      else s)"

definition handleUseHint :: "quiz_state \<Rightarrow> quiz_state" where
  "handleUseHint s =
     (if \<not> canUseHint s then s
      else s\<lparr>credits := credits s - 2,
             usedHints := insert (currentQuestionIndex s) (usedHints s)\<rparr>)"

text \<open>The oldest pending \<open>setTimeout\<close> callback runs with the flag it captured.\<close>

definition fire_timer :: "quiz_state \<Rightarrow> quiz_state" where
  "fire_timer s =
     (case timers s of
        [] \<Rightarrow> s
      | isLast # rest \<Rightarrow> advance isLast (s\<lparr>timers := rest\<rparr>))"

text \<open>
  The quiz screen reads \<open>currentQuestion.question\<close> while rendering, which throws when the
  index is out of range; the results screen does not. A component whose render threw is
  unmounted: no handler can be reached and state setters do nothing.
\<close>

definition render_fails :: "Question list \<Rightarrow> quiz_state \<Rightarrow> bool" where
  "render_fails qs s \<longleftrightarrow> \<not> isQuizComplete s \<and> currentQuestion qs s = None"

datatype event = OptionSelect nat | Next | Previous | UseHint | TimerFire

text \<open>
  One browser event. The buttons exist on the quiz screen only, each with the
  \<open>disabled\<close> condition of its JSX; an option button exists for every index of the
  current question's \<open>options\<close>.
\<close>

definition step :: "Question list \<Rightarrow> event \<Rightarrow> quiz_state \<Rightarrow> quiz_state" where
  "step qs ev s =
     (if render_fails qs s then s
      else case ev of
        TimerFire \<Rightarrow> fire_timer s
      | OptionSelect i \<Rightarrow>
          (if isQuizComplete s \<or> showAnswer s \<or> hasAnswered s \<noteq> None
              \<or> \<not> i < length (options (qs ! currentQuestionIndex s))
           then s else handleOptionSelect i s)
      | Next \<Rightarrow>
          (if isQuizComplete s \<or> (selectedOption s = None \<and> hasAnswered s = None)
           then s else handleNextQuestion qs s)
      | Previous \<Rightarrow>
          (if isQuizComplete s \<or> currentQuestionIndex s = 0
           then s else handlePreviousQuestion s)
      | UseHint \<Rightarrow>
          (if isQuizComplete s \<or> \<not> canUseHint s then s else handleUseHint s))"

definition run :: "Question list \<Rightarrow> event list \<Rightarrow> quiz_state \<Rightarrow> quiz_state" where
  "run qs evs s = fold (step qs) evs s"

text \<open>The entry that \<open>handleNextQuestion\<close> builds from the state it runs in.\<close>

definition recorded :: "Question list \<Rightarrow> quiz_state \<Rightarrow> UserAnswer" where
  "recorded qs s =
     \<lparr>questionIndex = currentQuestionIndex s,
      selectedAnswer = the (selectedOption s),
      isCorrect =
        (of_nat (the (selectedOption s)) = correctAnswerIndex (qs ! currentQuestionIndex s)),
      usedHint = (currentQuestionIndex s \<in> usedHints s)\<rparr>"

text \<open>The Hint button is on screen, enabled, and its handler passes its guard.\<close>

definition hint_applies :: "Question list \<Rightarrow> quiz_state \<Rightarrow> bool" where
  "hint_applies qs s \<longleftrightarrow> \<not> render_fails qs s \<and> \<not> isQuizComplete s \<and> canUseHint s"

text \<open>Somewhere in the event sequence a hint was taken while question \<open>i\<close> was current.\<close>

definition hint_taken :: "Question list \<Rightarrow> event list \<Rightarrow> nat \<Rightarrow> bool" where
  "hint_taken qs evs i \<longleftrightarrow>
     (\<exists>p r. evs = p @ UseHint # r
        \<and> currentQuestionIndex (run qs p initial_state) = i
        \<and> hint_applies qs (run qs p initial_state))"

text \<open>What ties the credits to the used-hints set.\<close>

definition hints_inv :: "quiz_state \<Rightarrow> bool" where
  "hints_inv s \<longleftrightarrow>
     finite (usedHints s) \<and> 0 \<le> credits s \<and> credits s = 10 - 2 * int (card (usedHints s))"

text \<open>Sample questions for the concrete runs below.\<close>

definition sample_question :: "rat \<Rightarrow> Question" where
  "sample_question k =
     \<lparr>question = ''Q'', options = [''A'', ''B'', ''C'', ''D''],
      correctAnswerIndex = k, hint = ''H''\<rparr>"

definition two_questions :: "Question list" where
  "two_questions = [sample_question 1, sample_question 2]"

section \<open>The score (calculateScore)\<close>

text \<open>
  \<open>Math.round((correctAnswers / totalQuestions) * 100)\<close> is computed on doubles. Both
  counts are array lengths, so they are doubles exactly; the quotient and the product are
  each rounded to the nearest double, ties to the even significand. \<open>fl\<close> is that
  rounding for a rational in the range of normal doubles, where every value of this
  computation lies: \<open>binade x\<close> is the exponent \<open>e\<close> with \<open>2^e \<le> x < 2^(e+1)\<close>, and the
  significand \<open>x / 2^(e-52)\<close> is rounded to an integer. \<open>Math.round\<close> itself is exact: the
  nearest integer, a tie going up. With no question the quotient is \<open>NaN\<close> or infinite
  and the percentage is no number: \<open>None\<close>.
\<close>

definition binade :: "rat \<Rightarrow> int" where
  "binade x =
     (let (a, b) = quotient_of x; d = bitlen a - bitlen b
      in if 2 powi d \<le> x then d else d - 1)"

definition round_even :: "rat \<Rightarrow> int" where
  "round_even x =
     (let f = \<lfloor>x\<rfloor>; r = x - of_int f
      in if r < 1 / 2 then f else if 1 / 2 < r then f + 1 else if even f then f else f + 1)"

definition fl :: "rat \<Rightarrow> rat" where
  "fl x =
     (if x = 0 then 0
      else let u = 2 powi (binade \<bar>x\<bar> - 52)
           in sgn x * of_int (round_even (\<bar>x\<bar> / u)) * u)"

definition math_round :: "rat \<Rightarrow> int" where
  "math_round x = \<lfloor>x + 1 / 2\<rfloor>"

record score =
  correctAnswers :: nat
  totalQuestions :: nat
  percentage :: "int option"

definition calculateScore :: "Question list \<Rightarrow> quiz_state \<Rightarrow> score" where
  "calculateScore qs s =
     (let totalQuestions = length qs;
          correctAnswers = length (filter isCorrect (userAnswers s))
      in \<lparr>correctAnswers = correctAnswers, totalQuestions = totalQuestions,
          percentage =
            (if totalQuestions = 0 then None
             else Some (math_round
                    (fl (fl (of_nat correctAnswers / of_nat totalQuestions) * 100))))\<rparr>)"

text \<open>
  A finished quiz of forty questions with the first 23 answered correctly, and the events
  that answer question \<open>i\<close> of it.
\<close>

definition answered_23_of_40 :: quiz_state where
  "answered_23_of_40 =
     initial_state
       \<lparr>currentQuestionIndex := 39,
        userAnswers :=
          map (\<lambda>i. \<lparr>questionIndex = i, selectedAnswer = (if i < 23 then 1 else 0),
                     isCorrect = (i < 23), usedHint = False\<rparr>) [0..<40],
        isQuizComplete := True\<rparr>"

definition forty_questions :: "Question list" where
  "forty_questions = replicate 40 (sample_question 1)"

definition answer_events :: "nat \<Rightarrow> event list" where
  "answer_events i = [OptionSelect (if i < 23 then 1 else 0), Next, TimerFire]"

section \<open>Extracting the array from the generated text\<close>

text \<open>
  \<open>generatedText.match(...)\<close> in \<open>generateQuiz\<close> and \<open>generateVoiceQuizFrom\<close>, with
  the regular expression: an escaped opening bracket, the class "white space or not white
  space" under a star, an escaped closing bracket. That is an opening bracket, a greedy
  run of any characters, a closing bracket. The matcher tries start positions from the
  left. At a start position that holds an opening bracket, the star first takes
  everything and backtracks one character at a time until a closing bracket follows:
  \<open>greedy_close\<close> is that search on the text after the opening bracket, preferring the
  longer run. \<open>None\<close> is JavaScript's \<open>null\<close>.
\<close>

fun greedy_close :: "string \<Rightarrow> string option" where
  "greedy_close [] = None"
| "greedy_close (c # cs) =
     (case greedy_close cs of
        Some m \<Rightarrow> Some (c # m)
      | None \<Rightarrow> if c = CHR '']'' then Some [c] else None)"

fun json_match :: "string \<Rightarrow> string option" where
  "json_match [] = None"
| "json_match (c # cs) =
     (if c = CHR ''[''
      then (case greedy_close cs of Some m \<Rightarrow> Some (c # m) | None \<Rightarrow> json_match cs)
      else json_match cs)"

text \<open>
  The spec's wording, for comparison with \<open>json_match\<close>: the first top-level bracketed
  array, from the first opening bracket to the closing bracket that balances it.
\<close>

fun close_at_depth :: "nat \<Rightarrow> string \<Rightarrow> string option" where
  "close_at_depth d [] = None"
| "close_at_depth d (c # cs) =
     (if c = CHR '']''
      then (if d = 0 then Some [c] else map_option ((#) c) (close_at_depth (d - 1) cs))
      else if c = CHR ''['' then map_option ((#) c) (close_at_depth (Suc d) cs)
      else map_option ((#) c) (close_at_depth d cs))"

fun first_top_level_array :: "string \<Rightarrow> string option" where
  "first_top_level_array [] = None"
| "first_top_level_array (c # cs) =
     (if c = CHR ''['' then map_option ((#) c) (close_at_depth 0 cs)
      else first_top_level_array cs)"

section \<open>JavaScript strings and values\<close>

text \<open>
  Strings are lists of 8-bit characters. \<open>trim\<close> removes white space and line
  terminators at both ends (those of the 8-bit range: tab, line feed, vertical tab, form
  feed, carriage return, space, no-break space); \<open>toLowerCase\<close> maps A-Z and the
  upper-case letters of Latin-1; \<open>str_includes\<close> is \<open>String.prototype.includes\<close>;
  \<open>match_digits\<close> is \<open>match(/\d+/)\<close>, the first maximal run of digits;
  \<open>show_nat\<close> is the decimal text a template literal gives a non-negative integer.
\<close>

definition is_space :: "char \<Rightarrow> bool" where
  "is_space c \<longleftrightarrow> (of_char c :: nat) \<in> {9, 10, 11, 12, 13, 32, 160}"

definition trim :: "string \<Rightarrow> string" where
  "trim s = rev (dropWhile is_space (rev (dropWhile is_space s)))"

definition to_lower_char :: "char \<Rightarrow> char" where
  "to_lower_char c =
     (let n = (of_char c :: nat)
      in if (65 \<le> n \<and> n \<le> 90) \<or> (192 \<le> n \<and> n \<le> 222 \<and> n \<noteq> 215)
         then char_of (n + 32) else c)"

definition toLowerCase :: "string \<Rightarrow> string" where
  "toLowerCase s = map to_lower_char s"

definition str_includes :: "string \<Rightarrow> string \<Rightarrow> bool" where
  "str_includes s k \<longleftrightarrow> sublist k s"

definition is_digit :: "char \<Rightarrow> bool" where
  "is_digit c \<longleftrightarrow> 48 \<le> (of_char c :: nat) \<and> (of_char c :: nat) \<le> 57"

definition match_digits :: "string \<Rightarrow> string option" where
  "match_digits s =
     (case dropWhile (\<lambda>c. \<not> is_digit c) s of
        [] \<Rightarrow> None
      | r \<Rightarrow> Some (takeWhile is_digit r))"


text \<open>
  What \<open>JSON.parse\<close> and \<open>response.json()\<close> return. A number is a double: a finite one
  is a rational, and a literal beyond the range parses to an infinity (\<open>Infinity True\<close>
  the positive one). An object is its list of own properties. \<open>undefined\<close> is \<open>None\<close>
  at type \<open>json option\<close>.
\<close>

datatype number = Finite rat | Infinity bool

datatype json =
    JNull
  | JBool bool
  | JNum number
  | JStr string
  | JArr "json list"
  | JObj "(string \<times> json) list"

text \<open>
  Thrown values, each with its \<open>message\<close>. The wording of a \<open>TypeError\<close> raised by the
  engine itself is the engine's; the texts used below stand for it.
\<close>

datatype js_error = Error string | TypeError string | SyntaxError string


text \<open>\<open>ToBoolean\<close>, as applied by \<open>&&\<close>, \<open>!\<close> and \<open>every\<close>.\<close>

fun truthy :: "json option \<Rightarrow> bool" where
  "truthy None = False"
| "truthy (Some JNull) = False"
| "truthy (Some (JBool b)) = b"
| "truthy (Some (JNum n)) = (n \<noteq> Finite 0)"
| "truthy (Some (JStr s)) = (s \<noteq> [])"
| "truthy (Some (JArr xs)) = True"
| "truthy (Some (JObj kvs)) = True"

text \<open>
  Reading a property of a value that is neither \<open>null\<close> nor \<open>undefined\<close>. \<open>field\<close> is
  for the names read in this program (\<open>question\<close>, \<open>options\<close>, \<open>correctAnswerIndex\<close>,
  \<open>hint\<close>, \<open>candidates\<close>, \<open>content\<close>, \<open>parts\<close>, \<open>text\<close>), which only an object can own;
  \<open>index0\<close> is \<open>[0]\<close>; \<open>opt_chain\<close> is the \<open>?.\<close> in front of either.
\<close>

fun field :: "string \<Rightarrow> json \<Rightarrow> json option" where
  "field k (JObj kvs) = map_of kvs k"
| "field k v = None"

fun index0 :: "json \<Rightarrow> json option" where
  "index0 (JArr xs) = (case xs of [] \<Rightarrow> None | x # _ \<Rightarrow> Some x)"
| "index0 (JObj kvs) = map_of kvs ''0''"
| "index0 (JStr s) = (case s of [] \<Rightarrow> None | c # _ \<Rightarrow> Some (JStr [c]))"
| "index0 v = None"

fun opt_chain :: "json option \<Rightarrow> (json \<Rightarrow> json option) \<Rightarrow> json option" where
  "opt_chain None f = None"
| "opt_chain (Some JNull) f = None"
| "opt_chain (Some v) f = f v"

section \<open>Validating the parsed questions\<close>

text \<open>
  The checks that follow \<open>JSON.parse\<close> in \<open>generateQuiz\<close> and \<open>generateVoiceQuizFrom\<close>:
  \<open>!Array.isArray(questions) || questions.length === 0\<close>, then \<open>questions.every(...)\<close>
  with the callback
  \<open>q.question && Array.isArray(q.options) && q.options.length === 4 &&
  typeof q.correctAnswerIndex === 'number' && q.hint\<close>.
  Reading \<open>q.question\<close> of a \<open>null\<close> element throws; \<open>every\<close> stops at the first
  element whose callback result is falsy.
\<close>

fun is_number :: "json option \<Rightarrow> bool" where
  "is_number (Some (JNum n)) = True"
| "is_number v = False"

fun is_array_of_length :: "nat \<Rightarrow> json option \<Rightarrow> bool" where
  "is_array_of_length k (Some (JArr xs)) = (length xs = k)"
| "is_array_of_length k v = False"

fun valid_question :: "json \<Rightarrow> js_error + bool" where
  "valid_question JNull = Inl (TypeError ''Cannot read properties of null'')"
| "valid_question q =
     Inr (truthy (field ''question'' q) \<and> is_array_of_length 4 (field ''options'' q) \<and>
          is_number (field ''correctAnswerIndex'' q) \<and> truthy (field ''hint'' q))"

fun every_valid :: "json list \<Rightarrow> js_error + bool" where
  "every_valid [] = Inr True"
| "every_valid (q # qs) =
     (case valid_question q of
        Inl e \<Rightarrow> Inl e
      | Inr ok \<Rightarrow> if ok then every_valid qs else Inr False)"

definition validate_questions :: "json \<Rightarrow> js_error + json list" where
  "validate_questions parsed =
     (case parsed of
        JArr qs \<Rightarrow>
          if qs = [] then Inl (Error ''No valid questions generated'')
          else (case every_valid qs of
                  Inl e \<Rightarrow> Inl e
                | Inr ok \<Rightarrow>
                    if ok then Inr qs
                    else Inl (Error ''Generated questions have invalid format''))
      | _ \<Rightarrow> Inl (Error ''No valid questions generated''))"

text \<open>
  The Question invariants as claim C2 words them: a non-empty question string, exactly
  four options, a \<open>correctAnswerIndex\<close> that is one of 0, 1, 2, 3, a non-empty hint string.
\<close>

definition in_range_question :: "json \<Rightarrow> bool" where
  "in_range_question q \<longleftrightarrow>
     (\<exists>kvs t os h. q = JObj kvs \<and>
        map_of kvs ''question'' = Some (JStr t) \<and> t \<noteq> [] \<and>
        map_of kvs ''options'' = Some (JArr os) \<and> length os = 4 \<and>
        (\<exists>i \<in> {0, 1, 2, 3}. map_of kvs ''correctAnswerIndex'' = Some (JNum (Finite i))) \<and>
        map_of kvs ''hint'' = Some (JStr h) \<and> h \<noteq> [])"

text \<open>What the callback does check: presence and type, no range.\<close>

definition shallow_question :: "json \<Rightarrow> bool" where
  "shallow_question q \<longleftrightarrow>
     (\<exists>kvs os n. q = JObj kvs \<and>
        truthy (map_of kvs ''question'') \<and>
        map_of kvs ''options'' = Some (JArr os) \<and> length os = 4 \<and>
        map_of kvs ''correctAnswerIndex'' = Some (JNum n) \<and>
        truthy (map_of kvs ''hint''))"

definition question_json :: "rat \<Rightarrow> json" where
  "question_json i =
     JObj [(''question'', JStr ''What is it?''),
           (''options'', JArr [JStr ''A'', JStr ''B'', JStr ''C'', JStr ''D'']),
           (''correctAnswerIndex'', JNum (Finite i)),
           (''hint'', JStr ''Think.'')]"

section \<open>Text extraction (extractTextFromFile)\<close>

text \<open>
  A \<open>File\<close> with what the three library-backed extractors (\<open>extractTextFromPDF\<close>,
  \<open>extractTextFromDOCX\<close>, \<open>extractTextFromTXT\<close>) would return on it: the text, or the
  error they reject with. \<open>extractTextFromFile\<close> picks one by MIME type or file-name
  suffix and replaces every error, its own "Unsupported file type" included, by one
  fixed message.
\<close>

record js_file =
  file_type :: string
  file_name :: string
  pdf_text :: "js_error + string"
  docx_text :: "js_error + string"
  txt_text :: "js_error + string"

definition endsWith :: "string \<Rightarrow> string \<Rightarrow> bool" where
  "endsWith s k \<longleftrightarrow> suffix k s"

definition extractTextFromFile :: "js_file \<Rightarrow> js_error + string" where
  "extractTextFromFile f =
     (let fileType = file_type f;
          fileName = toLowerCase (file_name f);
          attempt =
            (if fileType = ''application/pdf'' \<or> endsWith fileName ''.pdf'' then pdf_text f
             else if fileType =
                       ''application/vnd.openxmlformats-officedocument.wordprocessingml.document''
                     \<or> endsWith fileName ''.docx'' then docx_text f
             else if fileType = ''text/plain'' \<or> endsWith fileName ''.txt'' then txt_text f
             else Inl (Error (''Unsupported file type: '' @ fileType)))
      in case attempt of
           Inl e \<Rightarrow>
             Inl (Error
               ''Failed to extract text from file. Please check the file format and try again.'')
         | Inr t \<Rightarrow> Inr t)"

section \<open>Quiz generation (generateQuiz)\<close>

text \<open>
  \<open>generateQuiz\<close> is one \<open>try\<close>/\<open>catch\<close>/\<open>finally\<close> around: gather the content, build
  the prompt, one \<open>fetch\<close>, read the nested text, match, parse, validate, call
  \<open>onQuizGenerated\<close>. What it does to the outside is a list of effects, in order. The
  prompt is a fixed template around the settings, the content description and the content
  source, so a \<open>Fetch\<close> carries those. A \<open>Toast\<close> carries title, description and whether
  its variant is "destructive".

  What the outside does to it is the \<open>world\<close>: the outcome of the one \<open>fetch\<close> (it rejects,
  or resolves to a response whose \<open>json()\<close> in turn rejects or resolves), and \<open>JSON.parse\<close>,
  which is taken as any function from strings to a value or a \<open>SyntaxError\<close>.
\<close>

datatype InputType = FileInput | WebInput | VoiceInput

record QuizSettingsData =
  settings_questionCount :: nat
  settings_difficulty :: string
  settings_questionType :: string

record response =
  ok :: bool
  status :: nat
  statusText :: string
  json_body :: "js_error + json"

record prompt =
  prompt_settings :: QuizSettingsData
  contentDescription :: string
  contentSource :: string

datatype effect =
    Toast string string bool
  | ConsoleError js_error
  | Fetch prompt
  | OnQuizGenerated "json list"

text \<open>The component state and props that \<open>generateQuiz\<close> and \<open>isReadyToGenerate\<close> read.\<close>

record generator =
  apiKey :: string
  inputType :: InputType
  selectedFile :: "js_file option"
  webLink :: string
  webDescription :: string
  voiceText :: string
  settings :: QuizSettingsData
  isGenerating :: bool
  isVoiceInputComplete :: bool
  voice_topic :: string
  voice_questionCount :: string
  voice_difficulty :: string

record world =
  fetch_result :: "js_error + response"
  json_parse :: "string \<Rightarrow> js_error + json"


text \<open>A piece of the \<open>try\<close> block: the effects so far, and a value or the thrown error.\<close>

type_synonym 'a action = "effect list \<times> (js_error + 'a)"

definition gather_content :: "generator \<Rightarrow> (string \<times> string) action" where
  "gather_content g =
     (case inputType g of
        FileInput \<Rightarrow>
          (case selectedFile g of
             None \<Rightarrow>
               ([Toast ''Processing document...'' ''Extracting text from your file'' False],
                Inl (TypeError ''Cannot read properties of null''))
           | Some f \<Rightarrow>
               ([Toast ''Processing document...'' ''Extracting text from your file'' False],
                case extractTextFromFile f of
                  Inl e \<Rightarrow> Inl e
                | Inr extractedText \<Rightarrow>
                    if trim extractedText = []
                    then Inl (Error ''No text could be extracted from the file'')
                    else Inr (extractedText, ''Document: '' @ file_name f)))
      | WebInput \<Rightarrow>
          ([Toast ''Processing web content...'' ''Preparing content for quiz generation'' False],
           Inr (if trim (webDescription g) \<noteq> []
                then ''Website: '' @ webLink g @ [CHR 10, CHR 10] @ ''Description: ''
                       @ webDescription g
                else ''Website: '' @ webLink g,
                ''Web Content: '' @ webLink g))
      | VoiceInput \<Rightarrow>
          ([Toast ''Processing voice input...'' ''Converting speech to text'' False],
           Inr (trim (voiceText g), ''Voice Input'')))"

text \<open>\<open>data.candidates?.[0]?.content?.parts?.[0]?.text\<close>; only \<open>data\<close> itself is read unguarded.\<close>

definition generatedText_of :: "json \<Rightarrow> js_error + json option" where
  "generatedText_of data =
     (case data of
        JNull \<Rightarrow> Inl (TypeError ''Cannot read properties of null'')
      | _ \<Rightarrow>
          Inr (opt_chain (opt_chain (opt_chain (opt_chain (opt_chain
                 (field ''candidates'' data) index0) (field ''content'')) (field ''parts''))
                 index0) (field ''text'')))"





section \<open>The page (Index)\<close>







text \<open>Every stage of the \<open>try\<close> block goes through and yields \<open>questions\<close>.\<close>

definition generation_succeeds :: "world \<Rightarrow> generator \<Rightarrow> json list \<Rightarrow> bool" where
  "generation_succeeds w g questions \<longleftrightarrow>
     (\<exists>content r data text jsonMatch parsed.
        snd (gather_content g) = Inr content \<and>
        fetch_result w = Inr r \<and> ok r \<and> json_body r = Inr data \<and>
        generatedText_of data = Inr (Some (JStr text)) \<and> text \<noteq> [] \<and>
        json_match text = Some jsonMatch \<and>
        json_parse w jsonMatch = Inr parsed \<and>
        validate_questions parsed = Inr questions)"



section \<open>Voice conversation (processVoiceResponse)\<close>

text \<open>
  The step and the responses each live in a state cell and in a ref that
  \<open>updateConversationStep\<close> and \<open>updateVoiceResponses\<close> write together; one field stands
  for both. \<open>isProcessing\<close>, \<open>isGeneratingQuiz\<close> and \<open>currentTranscript\<close> are the refs of
  those names. Speech output, the toast and the restarts of the recogniser are left out.
\<close>

datatype conv_step = Topic | Questions | Difficulty

record voice_responses =
  topic :: string
  questionCount :: string
  difficulty :: string

record voice =
  conversationStep :: conv_step
  voiceResponses :: voice_responses
  showVoiceModal :: bool
  voiceInputComplete :: bool
  isProcessing :: bool
  isGeneratingQuiz :: bool
  currentTranscript :: string

definition updateConversationStep :: "conv_step \<Rightarrow> voice \<Rightarrow> voice" where
  "updateConversationStep st v = v\<lparr>conversationStep := st\<rparr>"

definition startVoiceConversation :: "voice \<Rightarrow> voice" where
  "startVoiceConversation v =
     updateConversationStep Topic
       (v\<lparr>isProcessing := False, isGeneratingQuiz := False, currentTranscript := [],
          voiceInputComplete := False, showVoiceModal := True,
          voiceResponses := \<lparr>topic = [], questionCount = [], difficulty = []\<rparr>\<rparr>)"

definition difficulty_of :: "string \<Rightarrow> string" where
  "difficulty_of lowerTranscript =
     (if str_includes lowerTranscript ''easy'' \<or> str_includes lowerTranscript ''simple''
      then ''easy''
      else if str_includes lowerTranscript ''hard'' \<or> str_includes lowerTranscript ''difficult''
              \<or> str_includes lowerTranscript ''advanced''
      then ''hard''
      else ''medium'')"

definition processVoiceResponse :: "string \<Rightarrow> voice \<Rightarrow> voice" where
  "processVoiceResponse transcript v =
     (if isProcessing v then v
      else
        let lowerTranscript = trim (toLowerCase transcript);
            v1 = v\<lparr>isProcessing := True\<rparr>
        in case conversationStep v of
             Topic \<Rightarrow>
               if length (trim transcript) < 3 then v1\<lparr>isProcessing := False\<rparr>
               else (updateConversationStep Questions
                       (v1\<lparr>voiceResponses := (voiceResponses v1)\<lparr>topic := trim transcript\<rparr>\<rparr>))
                    \<lparr>isProcessing := False\<rparr>
           | Questions \<Rightarrow>
               (updateConversationStep Difficulty
                  (v1\<lparr>voiceResponses := (voiceResponses v1)
                        \<lparr>questionCount :=
                           (case match_digits lowerTranscript of
                              Some numberMatch \<Rightarrow> numberMatch
                            | None \<Rightarrow> ''10'')\<rparr>\<rparr>))
               \<lparr>isProcessing := False\<rparr>
           | Difficulty \<Rightarrow>
               v1\<lparr>voiceResponses := (voiceResponses v1)
                     \<lparr>difficulty := difficulty_of lowerTranscript\<rparr>,
                   isProcessing := False, showVoiceModal := False,
                   voiceInputComplete := True\<rparr>)"

text \<open>
  The recogniser's \<open>onresult\<close> stores the trimmed transcript, and the silence timeout it
  arms is the one place that calls \<open>processVoiceResponse\<close>, with the stored transcript
  trimmed again. \<open>hear\<close> is one utterance followed by silence; \<open>converse\<close> is a
  conversation from \<open>startVoiceConversation\<close> on.
\<close>

definition on_result :: "string \<Rightarrow> voice \<Rightarrow> voice" where
  "on_result newTranscript v =
     (if isProcessing v \<or> isGeneratingQuiz v then v
      else v\<lparr>currentTranscript := trim newTranscript\<rparr>)"

definition on_silence :: "voice \<Rightarrow> voice" where
  "on_silence v =
     (if \<not> isProcessing v \<and> \<not> isGeneratingQuiz v \<and> trim (currentTranscript v) \<noteq> []
      then (let transcriptToProcess = trim (currentTranscript v)
            in if 2 \<le> length transcriptToProcess
               then processVoiceResponse transcriptToProcess v else v)
      else v)"

fun step_rank :: "conv_step \<Rightarrow> nat" where
  "step_rank Topic = 0"
| "step_rank Questions = 1"
| "step_rank Difficulty = 2"

definition hear :: "string \<Rightarrow> voice \<Rightarrow> voice" where
  "hear said v = on_silence (on_result said v)"

definition converse :: "string list \<Rightarrow> voice \<Rightarrow> voice" where
  "converse saids v = fold hear saids (startVoiceConversation v)"

definition idle_voice :: voice where
  "idle_voice =
     \<lparr>conversationStep = Topic,
      voiceResponses = \<lparr>topic = [], questionCount = [], difficulty = []\<rparr>,
      showVoiceModal = False, voiceInputComplete = False, isProcessing = False,
      isGeneratingQuiz = False, currentTranscript = []\<rparr>"

section \<open>Properties of quiz taking\<close>

lemmas quiz_eval =
  run_def step_def render_fails_def currentQuestion_def isLastQuestion_def hasAnswered_def
  canUseHint_def handleOptionSelect_def handleNextQuestion_def handlePreviousQuestion_def
  handleUseHint_def fire_timer_def advance_def initial_state_def two_questions_def
  sample_question_def Let_def

lemma run_Nil [simp]: "run qs [] s = s"
  by (simp add: run_def)

lemma run_snoc [simp]: "run qs (evs @ [ev]) s = step qs ev (run qs evs s)"
  by (simp add: run_def)

lemma run_append: "run qs (evs @ evs') s = run qs evs' (run qs evs s)"
  by (simp add: run_def)

lemma advance_keeps [simp]:
  "usedHints (advance b s) = usedHints s" "credits (advance b s) = credits s"
  "userAnswers (advance b s) = userAnswers s"
  by (simp_all add: advance_def)

lemma fire_timer_keeps [simp]:
  "usedHints (fire_timer s) = usedHints s" "credits (fire_timer s) = credits s"
  "userAnswers (fire_timer s) = userAnswers s"
  by (simp_all add: fire_timer_def split: list.split)

lemma handleOptionSelect_keeps [simp]:
  "usedHints (handleOptionSelect i s) = usedHints s"
  "credits (handleOptionSelect i s) = credits s"
  "userAnswers (handleOptionSelect i s) = userAnswers s"
  by (simp_all add: handleOptionSelect_def)

lemma handlePreviousQuestion_keeps [simp]:
  "usedHints (handlePreviousQuestion s) = usedHints s"
  "credits (handlePreviousQuestion s) = credits s"
  "userAnswers (handlePreviousQuestion s) = userAnswers s"
  by (simp_all add: handlePreviousQuestion_def)

lemma handleNextQuestion_keeps [simp]:
  "usedHints (handleNextQuestion qs s) = usedHints s"
  "credits (handleNextQuestion qs s) = credits s"
  by (simp_all add: handleNextQuestion_def Let_def split: option.split)

lemma handleUseHint_answers [simp]:
  "userAnswers (handleUseHint s) = userAnswers s"
  by (simp add: handleUseHint_def)

lemma step_usedHints:
  "usedHints (step qs ev s) =
     (if ev = UseHint \<and> hint_applies qs s
      then insert (currentQuestionIndex s) (usedHints s) else usedHints s)"
  by (cases ev) (simp_all add: step_def hint_applies_def handleUseHint_def)

lemma step_credits:
  "credits (step qs ev s) =
     (if ev = UseHint \<and> hint_applies qs s then credits s - 2 else credits s)"
  by (cases ev) (simp_all add: step_def hint_applies_def handleUseHint_def)

lemma handleNextQuestion_answers:
  "userAnswers (handleNextQuestion qs s) =
     (if hasAnswered s = None \<and> selectedOption s \<noteq> None \<and> currentQuestionIndex s < length qs
      then userAnswers s @ [recorded qs s] else userAnswers s)"
  by (simp add: handleNextQuestion_def currentQuestion_def recorded_def Let_def)

lemma step_userAnswers:
  "userAnswers (step qs ev s) =
     (if ev = Next \<and> \<not> isQuizComplete s \<and> hasAnswered s = None \<and> selectedOption s \<noteq> None
          \<and> currentQuestionIndex s < length qs
      then userAnswers s @ [recorded qs s] else userAnswers s)"
  by (cases ev)
    (auto simp: step_def handleNextQuestion_answers render_fails_def currentQuestion_def)

lemma hasAnswered_None:
  "hasAnswered s = None \<longleftrightarrow> currentQuestionIndex s \<notin> questionIndex ` set (userAnswers s)"
  by (force simp: hasAnswered_def find_None_iff)

lemma step_distinct:
  assumes "distinct (map questionIndex (userAnswers s))"
  shows "distinct (map questionIndex (userAnswers (step qs ev s)))"
  using assms by (simp add: step_userAnswers hasAnswered_None recorded_def)

lemma run_distinct:
  "distinct (map questionIndex (userAnswers (run qs evs initial_state)))"
proof (induction evs rule: rev_induct)
  case Nil
  show ?case by (simp add: initial_state_def)
next
  case (snoc ev evs)
  then show ?case by (simp add: step_distinct)
qed

lemma run_prefix:
  "prefix (userAnswers s) (userAnswers (run qs evs s))"
proof (induction evs rule: rev_induct)
  case Nil
  show ?case by simp
next
  case (snoc ev evs)
  have "prefix (userAnswers (run qs evs s)) (userAnswers (step qs ev (run qs evs s)))"
    by (simp add: step_userAnswers)
  with snoc show ?case by (auto intro: prefix_order.trans)
qed

lemma step_hints_inv:
  assumes "hints_inv s"
  shows "hints_inv (step qs ev s)"
proof (cases "ev = UseHint \<and> hint_applies qs s")
  case True
  then have "2 \<le> credits s" "currentQuestionIndex s \<notin> usedHints s"
    by (simp_all add: hint_applies_def canUseHint_def)
  with assms True show ?thesis
    by (simp add: hints_inv_def step_credits step_usedHints)
next
  case False
  then have "usedHints (step qs ev s) = usedHints s" "credits (step qs ev s) = credits s"
    by (auto simp: step_credits step_usedHints)
  with assms show ?thesis
    by (simp add: hints_inv_def)
qed

lemma run_hints_inv: "hints_inv (run qs evs initial_state)"
proof (induction evs rule: rev_induct)
  case Nil
  show ?case by (simp add: hints_inv_def initial_state_def)
next
  case (snoc ev evs)
  then show ?case by (simp add: step_hints_inv)
qed

lemma snoc_eq_split:
  "evs @ [ev] = p @ x # r \<longleftrightarrow>
     (r = [] \<and> p = evs \<and> x = ev) \<or> (\<exists>r'. r = r' @ [ev] \<and> evs = p @ x # r')"
  by (cases r rule: rev_cases) auto

lemma run_usedHints:
  "i \<in> usedHints (run qs evs initial_state) \<longleftrightarrow> hint_taken qs evs i"
proof (induction evs rule: rev_induct)
  case Nil
  show ?case by (simp add: initial_state_def hint_taken_def)
next
  case (snoc ev evs)
  let ?s = "run qs evs initial_state"
  have "hint_taken qs (evs @ [ev]) i \<longleftrightarrow>
          (ev = UseHint \<and> currentQuestionIndex ?s = i \<and> hint_applies qs ?s)
          \<or> hint_taken qs evs i"
    unfolding hint_taken_def snoc_eq_split by blast
  with snoc show ?case
    by (auto simp: step_usedHints)
qed

lemma distinct_filter_le1:
  "distinct (map f xs) \<Longrightarrow> length (filter (\<lambda>a. f a = i) xs) \<le> 1"
proof (induction xs)
  case Nil
  show ?case by simp
next
  case (Cons x xs)
  show ?case
  proof (cases "f x = i")
    case True
    with Cons.prems have "i \<notin> f ` set xs" by auto
    then have "filter (\<lambda>a. f a = i) xs = []" by (auto simp: filter_empty_conv)
    with True show ?thesis by simp
  next
    case False
    with Cons show ?thesis by simp
  qed
qed

lemma step_answers_sound:
  assumes "\<forall>a \<in> set (userAnswers s). questionIndex a < length qs \<and>
             (isCorrect a \<longleftrightarrow>
                of_nat (selectedAnswer a) = correctAnswerIndex (qs ! questionIndex a))"
  shows "\<forall>a \<in> set (userAnswers (step qs ev s)). questionIndex a < length qs \<and>
             (isCorrect a \<longleftrightarrow>
                of_nat (selectedAnswer a) = correctAnswerIndex (qs ! questionIndex a))"
  using assms by (simp add: step_userAnswers recorded_def)

lemma run_answers_sound:
  "\<forall>a \<in> set (userAnswers (run qs evs initial_state)). questionIndex a < length qs \<and>
     (isCorrect a \<longleftrightarrow> of_nat (selectedAnswer a) = correctAnswerIndex (qs ! questionIndex a))"
proof (induction evs rule: rev_induct)
  case Nil
  show ?case by (simp add: initial_state_def)
next
  case (snoc ev evs)
  then show ?case
    using step_answers_sound [of "run qs evs initial_state" qs ev] by simp
qed

text \<open>
  When nothing happens between a press of Next and the callback it schedules, the index
  stays an index of the quiz or the quiz is complete.
\<close>

lemma undisturbed_advance_in_range:
  assumes "timers s = []" and "currentQuestionIndex s < length qs" and "\<not> isQuizComplete s"
  shows "isQuizComplete (step qs TimerFire (step qs Next s))
         \<or> currentQuestionIndex (step qs TimerFire (step qs Next s)) < length qs"
proof -
  have last: "\<not> isLastQuestion qs s \<Longrightarrow> Suc (currentQuestionIndex s) < length qs"
    using assms(2) by (auto simp: isLastQuestion_def)
  show ?thesis
  proof (cases "selectedOption s = None \<and> hasAnswered s = None")
    case True
    with assms show ?thesis
      by (simp add: step_def render_fails_def currentQuestion_def fire_timer_def)
  next
    case False
    show ?thesis
    proof (cases "hasAnswered s = None")
      case True
      with False assms last show ?thesis
        by (auto simp: step_def render_fails_def currentQuestion_def fire_timer_def
            handleNextQuestion_def advance_def Let_def)
    next
      case answered: False
      with False assms last show ?thesis
        by (auto simp: step_def render_fails_def currentQuestion_def fire_timer_def
            handleNextQuestion_def advance_def Let_def)
    qed
  qed
qed

text \<open>
  Claim C5 (navigation keeps the index within \<open>0..M-1\<close>). The auto-advance callback uses
  the \<open>isLastQuestion\<close> of the render that created it. With two questions: choose an
  option on the first, press Next (the answer is recorded and the callback is scheduled),
  press Next again before the two seconds are over (the already-answered branch moves to
  the second, last question), then let the callback run: it still believes the question
  is not the last one and increments the index to 2, which is no index of the quiz, and
  the next render fails on \<open>currentQuestion.question\<close>.
\<close>

theorem next_twice_index_out_of_range:
  "currentQuestionIndex
     (run two_questions [OptionSelect 0, Next, Next, TimerFire] initial_state)
     = length two_questions
   \<and> \<not> isQuizComplete
       (run two_questions [OptionSelect 0, Next, Next, TimerFire] initial_state)
   \<and> render_fails two_questions
       (run two_questions [OptionSelect 0, Next, Next, TimerFire] initial_state)"
  by (simp add: quiz_eval)

text \<open>
  Claim C6 (what a recorded answer says). In every reachable state, pressing Next on a
  question that has no entry yet, with option \<open>k\<close> selected, appends exactly one entry:
  the current index, \<open>k\<close>, \<open>isCorrect\<close> exactly when \<open>k\<close> equals the question's
  \<open>correctAnswerIndex\<close>, and \<open>usedHint\<close> exactly when a hint was taken on that question
  earlier in the event sequence; \<open>handleNextQuestion\<close> does so from any state, with
  \<open>usedHint\<close> the membership of the index in the used-hints set. Conversely, whenever an
  event adds to \<open>userAnswers\<close>, the event is Next and the entry added is that one. Every
  entry of every reachable state has an index of the quiz and the right \<open>isCorrect\<close>.
\<close>

theorem answer_correctness_recorded:
  "let s = run qs evs initial_state; s' = step qs ev s in
     (userAnswers s' \<noteq> userAnswers s \<longrightarrow>
        (\<exists>sel. ev = Next \<and> selectedOption s = Some sel \<and> currentQuestionIndex s < length qs \<and>
           userAnswers s' = userAnswers s @
             [\<lparr>questionIndex = currentQuestionIndex s, selectedAnswer = sel,
               isCorrect = (of_nat sel = correctAnswerIndex (qs ! currentQuestionIndex s)),
               usedHint = hint_taken qs evs (currentQuestionIndex s)\<rparr>])) \<and>
     (\<forall>a \<in> set (userAnswers s). questionIndex a < length qs \<and>
        (isCorrect a \<longleftrightarrow>
           of_nat (selectedAnswer a) = correctAnswerIndex (qs ! questionIndex a))) \<and>
     (\<not> isQuizComplete s \<and> hasAnswered s = None \<and> selectedOption s = Some k \<and>
        currentQuestionIndex s < length qs \<longrightarrow>
          userAnswers (step qs Next s) = userAnswers s @
            [\<lparr>questionIndex = currentQuestionIndex s, selectedAnswer = k,
              isCorrect = (of_nat k = correctAnswerIndex (qs ! currentQuestionIndex s)),
              usedHint = hint_taken qs evs (currentQuestionIndex s)\<rparr>]) \<and>
     (hasAnswered t = None \<and> selectedOption t = Some k \<and> currentQuestionIndex t < length qs \<longrightarrow>
          userAnswers (handleNextQuestion qs t) = userAnswers t @
            [\<lparr>questionIndex = currentQuestionIndex t, selectedAnswer = k,
              isCorrect = (of_nat k = correctAnswerIndex (qs ! currentQuestionIndex t)),
              usedHint = (currentQuestionIndex t \<in> usedHints t)\<rparr>])"
proof -
  let ?s = "run qs evs initial_state"
  have h: "currentQuestionIndex ?s \<in> usedHints ?s
          \<longleftrightarrow> hint_taken qs evs (currentQuestionIndex ?s)"
    by (rule run_usedHints)
  then have a: "userAnswers (step qs ev ?s) \<noteq> userAnswers ?s \<longrightarrow>
        (\<exists>sel. ev = Next \<and> selectedOption ?s = Some sel \<and> currentQuestionIndex ?s < length qs \<and>
           userAnswers (step qs ev ?s) = userAnswers ?s @
             [\<lparr>questionIndex = currentQuestionIndex ?s, selectedAnswer = sel,
               isCorrect = (of_nat sel = correctAnswerIndex (qs ! currentQuestionIndex ?s)),
               usedHint = hint_taken qs evs (currentQuestionIndex ?s)\<rparr>])"
    by (auto simp: step_userAnswers recorded_def)
  from h have c: "\<not> isQuizComplete ?s \<and> hasAnswered ?s = None \<and> selectedOption ?s = Some k \<and>
        currentQuestionIndex ?s < length qs \<longrightarrow>
          userAnswers (step qs Next ?s) = userAnswers ?s @
            [\<lparr>questionIndex = currentQuestionIndex ?s, selectedAnswer = k,
              isCorrect = (of_nat k = correctAnswerIndex (qs ! currentQuestionIndex ?s)),
              usedHint = hint_taken qs evs (currentQuestionIndex ?s)\<rparr>]"
    by (simp add: step_userAnswers recorded_def)
  have d: "hasAnswered t = None \<and> selectedOption t = Some k \<and> currentQuestionIndex t < length qs \<longrightarrow>
          userAnswers (handleNextQuestion qs t) = userAnswers t @
            [\<lparr>questionIndex = currentQuestionIndex t, selectedAnswer = k,
              isCorrect = (of_nat k = correctAnswerIndex (qs ! currentQuestionIndex t)),
              usedHint = (currentQuestionIndex t \<in> usedHints t)\<rparr>]"
    by (simp add: handleNextQuestion_answers recorded_def)
  from a run_answers_sound [of qs evs] c d show ?thesis
    unfolding Let_def by blast
qed

theorem answer_correctness_recorded_witness:
  "userAnswers (run two_questions [UseHint, OptionSelect 1, Next] initial_state)
     = [\<lparr>questionIndex = 0, selectedAnswer = 1, isCorrect = True, usedHint = True\<rparr>]
   \<and> hint_taken two_questions [UseHint, OptionSelect 1] 0
   \<and> userAnswers (handleNextQuestion two_questions
        (run two_questions [UseHint, OptionSelect 1] initial_state))
     = [\<lparr>questionIndex = 0, selectedAnswer = 1, isCorrect = True, usedHint = True\<rparr>]"
proof -
  define s where "s = run two_questions [UseHint, OptionSelect 1] initial_state"
  have s: "s = \<lparr>currentQuestionIndex = 0, userAnswers = [], selectedOption = Some 1,
      showAnswer = False, credits = 8, isQuizComplete = False, usedHints = {0}, timers = []\<rparr>"
    unfolding s_def by (simp add: quiz_eval)
  have pre: "\<not> isQuizComplete s \<and> hasAnswered s = None \<and> selectedOption s = Some 1 \<and>
      currentQuestionIndex s < length two_questions"
    "hasAnswered s = None \<and> selectedOption s = Some 1 \<and> currentQuestionIndex s < length two_questions"
    by (simp_all add: s hasAnswered_def two_questions_def)
  have q: "correctAnswerIndex (two_questions ! currentQuestionIndex s) = 1"
    by (simp add: s two_questions_def sample_question_def)
  have fin: "userAnswers (run two_questions [UseHint, OptionSelect 1, Next] initial_state)
     = [\<lparr>questionIndex = 0, selectedAnswer = 1, isCorrect = True, usedHint = True\<rparr>]"
    by (simp add: quiz_eval)
  have snoc: "run two_questions [UseHint, OptionSelect 1, Next] initial_state
     = step two_questions Next s"
    unfolding s_def
    using run_snoc [of two_questions "[UseHint, OptionSelect 1]" Next initial_state] by simp
  from answer_correctness_recorded
    [of two_questions "[UseHint, OptionSelect 1]" Next 1 s, folded s_def] pre
  have "userAnswers (step two_questions Next s) = userAnswers s @
            [\<lparr>questionIndex = currentQuestionIndex s, selectedAnswer = 1,
              isCorrect = (of_nat 1 = correctAnswerIndex (two_questions ! currentQuestionIndex s)),
              usedHint = hint_taken two_questions [UseHint, OptionSelect 1] (currentQuestionIndex s)\<rparr>]"
    and "userAnswers (handleNextQuestion two_questions s) = userAnswers s @
            [\<lparr>questionIndex = currentQuestionIndex s, selectedAnswer = 1,
              isCorrect = (of_nat 1 = correctAnswerIndex (two_questions ! currentQuestionIndex s)),
              usedHint = (currentQuestionIndex s \<in> usedHints s)\<rparr>]"
    unfolding Let_def by blast+
  then have "userAnswers (step two_questions Next s)
        = [\<lparr>questionIndex = 0, selectedAnswer = 1, isCorrect = True,
            usedHint = hint_taken two_questions [UseHint, OptionSelect 1] 0\<rparr>]"
    and "userAnswers (handleNextQuestion two_questions s)
        = [\<lparr>questionIndex = 0, selectedAnswer = 1, isCorrect = True, usedHint = True\<rparr>]"
    unfolding q by (simp_all add: s)
  with fin snoc show ?thesis unfolding s_def by simp
qed

text \<open>
  Claim C8 (recorded answers are never touched again). In every reachable state no
  question index has more than one entry; a single event either leaves \<open>userAnswers\<close>
  as it is or appends one entry for the current index, and that only when the current
  index had no entry; and whatever events follow, the list of now is a prefix of the
  list of then.
\<close>

theorem user_answers_immutable:
  "let s = run qs evs initial_state in
     (\<forall>i. length (filter (\<lambda>a. questionIndex a = i) (userAnswers s)) \<le> 1) \<and>
     (\<forall>ev. userAnswers (step qs ev s) = userAnswers s \<or>
        (hasAnswered s = None \<and>
         (\<exists>a. questionIndex a = currentQuestionIndex s \<and>
              userAnswers (step qs ev s) = userAnswers s @ [a]))) \<and>
     (\<forall>more. prefix (userAnswers s) (userAnswers (run qs more s)))"
proof -
  let ?s = "run qs evs initial_state"
  have a: "\<forall>i. length (filter (\<lambda>a. questionIndex a = i) (userAnswers ?s)) \<le> 1"
    using distinct_filter_le1 [OF run_distinct [of qs evs]] by blast
  have b: "userAnswers (step qs ev ?s) = userAnswers ?s \<or>
        (hasAnswered ?s = None \<and>
         (\<exists>a. questionIndex a = currentQuestionIndex ?s \<and>
              userAnswers (step qs ev ?s) = userAnswers ?s @ [a]))" for ev
    by (simp add: step_userAnswers recorded_def)
  have c: "\<forall>more. prefix (userAnswers ?s) (userAnswers (run qs more ?s))"
    by (simp add: run_prefix)
  from a b c show ?thesis unfolding Let_def by blast
qed

theorem user_answers_immutable_witness:
  "userAnswers
     (run two_questions
        [OptionSelect 2, Next, TimerFire, Previous, OptionSelect 1, Next, Next, UseHint]
        initial_state)
     = [\<lparr>questionIndex = 0, selectedAnswer = 2, isCorrect = False, usedHint = False\<rparr>]
   \<and> prefix [\<lparr>questionIndex = 0, selectedAnswer = 2, isCorrect = False, usedHint = False\<rparr>]
        (userAnswers (run two_questions [OptionSelect 1, Next]
           (run two_questions
              [OptionSelect 2, Next, TimerFire, Previous, OptionSelect 1, Next, Next, UseHint]
              initial_state)))"
  using user_answers_immutable
    [of two_questions
        "[OptionSelect 2, Next, TimerFire, Previous, OptionSelect 1, Next, Next, UseHint]"]
  by (simp add: quiz_eval)

text \<open>
  Claim C9 (hint credits). Credits start at 10; a hint can be taken exactly when at least
  2 credits are left and the current index is not in the used-hints set; taking it
  subtracts exactly 2 and adds the index; and after every sequence of events the credits
  are even, between 0 and 10, and equal to 10 minus twice the number of distinct
  questions on which a hint was taken.
\<close>

theorem hint_credits_invariant:
  "credits initial_state = 10 \<and>
   (canUseHint t \<longleftrightarrow> 2 \<le> credits t \<and> currentQuestionIndex t \<notin> usedHints t) \<and>
   handleUseHint t =
     (if canUseHint t
      then t\<lparr>credits := credits t - 2,
             usedHints := insert (currentQuestionIndex t) (usedHints t)\<rparr>
      else t) \<and>
   (let s = run qs evs initial_state in
      0 \<le> credits s \<and> credits s \<le> 10 \<and> even (credits s) \<and>
      usedHints s = {i. hint_taken qs evs i} \<and>
      credits s = 10 - 2 * int (card {i. hint_taken qs evs i}))"
proof -
  let ?s = "run qs evs initial_state"
  have u: "usedHints ?s = {i. hint_taken qs evs i}"
    using run_usedHints [of _ qs evs] by blast
  have "hints_inv ?s" by (rule run_hints_inv)
  then have "0 \<le> credits ?s" "credits ?s = 10 - 2 * int (card (usedHints ?s))"
    by (simp_all add: hints_inv_def)
  then have "0 \<le> credits ?s \<and> credits ?s \<le> 10 \<and> even (credits ?s) \<and>
      usedHints ?s = {i. hint_taken qs evs i} \<and>
      credits ?s = 10 - 2 * int (card {i. hint_taken qs evs i})"
    using u by simp
  then show ?thesis
    by (simp add: initial_state_def canUseHint_def handleUseHint_def Let_def)
qed

theorem hint_credits_invariant_witness:
  "credits
     (run two_questions [UseHint, UseHint, OptionSelect 1, Next, TimerFire, UseHint]
        initial_state) = 6
   \<and> card {i. hint_taken two_questions
                 [UseHint, UseHint, OptionSelect 1, Next, TimerFire, UseHint] i} = 2"
proof -
  let ?evs = "[UseHint, UseHint, OptionSelect 1, Next, TimerFire, UseHint]"
  have c: "credits (run two_questions ?evs initial_state) = 6"
    by (simp add: quiz_eval)
  with hint_credits_invariant [of initial_state two_questions ?evs]
  show ?thesis by (simp add: Let_def)
qed

section \<open>Properties of the score\<close>

lemma round_even_error: "\<bar>of_int (round_even y) - y\<bar> \<le> 1 / 2"
proof -
  let ?f = "\<lfloor>y\<rfloor>"
  have "of_int ?f \<le> y" "y < of_int ?f + 1" by linarith+
  then show ?thesis
    by (auto simp: round_even_def Let_def abs_le_iff)
qed

lemma binade_bounds:
  assumes "0 < x"
  shows "2 powi (binade x) \<le> x \<and> x < 2 powi (binade x + 1)"
proof -
  obtain a b where q: "quotient_of x = (a, b)" by (cases "quotient_of x")
  then have b: "0 < b" by (rule quotient_of_denom_pos)
  from q have x: "x = of_int a / of_int b" by (rule quotient_of_div)
  with assms b have a: "0 < a" by (simp add: zero_less_divide_iff)
  let ?la = "bitlen a" and ?lb = "bitlen b"
  let ?d = "?la - ?lb"
  from bitlen_bounds [OF a] have ab: "2 ^ nat (?la - 1) \<le> a" "a < 2 ^ nat ?la" by auto
  from bitlen_bounds [OF b] have bb: "2 ^ nat (?lb - 1) \<le> b" "b < 2 ^ nat ?lb" by auto
  have la: "1 \<le> ?la" using a bitlen_eq_zero_iff [of a] bitlen_nonneg [of a] by linarith
  have lb: "1 \<le> ?lb" using b bitlen_eq_zero_iff [of b] bitlen_nonneg [of b] by linarith
  have ra: "(2::rat) powi (?la - 1) \<le> of_int a" "of_int a < (2::rat) powi ?la"
  proof -
    have "(of_int (2 ^ nat (?la - 1)) :: rat) \<le> of_int a" using ab(1) by (simp only: of_int_le_iff)
    then show "(2::rat) powi (?la - 1) \<le> of_int a" using la by (simp add: power_int_def)
    have "(of_int a :: rat) < of_int (2 ^ nat ?la)" using ab(2) by (simp only: of_int_less_iff)
    then show "of_int a < (2::rat) powi ?la" using la by (simp add: power_int_def)
  qed
  have rb: "(2::rat) powi (?lb - 1) \<le> of_int b" "of_int b < (2::rat) powi ?lb"
  proof -
    have "(of_int (2 ^ nat (?lb - 1)) :: rat) \<le> of_int b" using bb(1) by (simp only: of_int_le_iff)
    then show "(2::rat) powi (?lb - 1) \<le> of_int b" using lb by (simp add: power_int_def)
    have "(of_int b :: rat) < of_int (2 ^ nat ?lb)" using bb(2) by (simp only: of_int_less_iff)
    then show "of_int b < (2::rat) powi ?lb" using lb by (simp add: power_int_def)
  qed
  have rbpos: "(0::rat) < of_int b" using b by simp
  have p: "(0::rat) < 2 powi k" for k by simp
  have up: "x < 2 powi (?d + 1)"
  proof -
    have "of_int a < (2::rat) powi (?d + 1) * 2 powi (?lb - 1)"
      using ra(2) by (simp add: power_int_add [symmetric])
    also have "\<dots> \<le> 2 powi (?d + 1) * of_int b"
      using rb(1) p [of "?d + 1"] by (simp only: mult_le_cancel_left_pos)
    finally show ?thesis using rbpos by (simp add: x pos_divide_less_eq)
  qed
  have lo: "2 powi (?d - 1) \<le> x"
  proof -
    have "(2::rat) powi (?d - 1) * of_int b \<le> 2 powi (?d - 1) * 2 powi ?lb"
      using rb(2) p [of "?d - 1"] by (simp only: mult_le_cancel_left_pos less_imp_le)
    also have "\<dots> = 2 powi (?la - 1)" by (simp add: power_int_add [symmetric])
    also have "\<dots> \<le> of_int a" by (rule ra(1))
    finally show ?thesis using rbpos by (simp add: x pos_le_divide_eq)
  qed
  show ?thesis
  proof (cases "2 powi ?d \<le> x")
    case True
    then have "binade x = ?d" using q by (simp add: binade_def)
    with True up show ?thesis by simp
  next
    case False
    then have "binade x = ?d - 1" using q by (simp add: binade_def)
    with False lo show ?thesis by simp
  qed
qed

lemma fl_error:
  assumes "0 < x"
  shows "\<bar>fl x - x\<bar> \<le> x / 2 ^ 53"
proof -
  let ?e = "binade x"
  let ?u = "(2::rat) powi (?e - 52)"
  have u: "0 < ?u" by simp
  have ax: "\<bar>x\<bar> = x" "sgn x = 1" "x \<noteq> 0" using assms by simp_all
  have flx: "fl x = of_int (round_even (x / ?u)) * ?u"
    using ax by (simp add: fl_def Let_def)
  have "fl x - x = (of_int (round_even (x / ?u)) - x / ?u) * ?u"
    using u by (simp add: flx field_simps)
  then have "\<bar>fl x - x\<bar> = \<bar>of_int (round_even (x / ?u)) - x / ?u\<bar> * ?u"
    using u by (simp add: abs_mult)
  also have "\<dots> \<le> (1 / 2) * ?u"
    using round_even_error [of "x / ?u"] u by (simp only: mult_le_cancel_right_pos)
  also have "(1 / 2) * ?u = 2 powi ?e / 2 ^ 53"
  proof -
    have "?u = 2 powi ?e / 2 powi 52" by (simp add: power_int_diff)
    then show ?thesis by (simp add: power_int_def)
  qed
  also have "\<dots> \<le> x / 2 ^ 53"
    using binade_bounds [OF assms] by (simp add: divide_right_mono)
  finally show ?thesis .
qed

lemma double_product_error_pos:
  assumes "0 < x" "x \<le> 1"
  shows "\<bar>fl (fl x * 100) - 100 * x\<bar> \<le> 201 / 2 ^ 53"
proof -
  define q where "q = fl x"
  define r where "r = fl (q * 100)"
  have pw: "(2::rat) ^ 53 = 9007199254740992" by simp
  have "\<bar>q - x\<bar> \<le> x / 2 ^ 53" unfolding q_def using assms(1) by (rule fl_error)
  then have 1: "q - x \<le> x / 9007199254740992" "x - q \<le> x / 9007199254740992"
    unfolding abs_le_iff pw by linarith+
  then have "0 < q" using assms(1) by linarith
  then have "0 < q * 100" by simp
  then have "\<bar>r - q * 100\<bar> \<le> (q * 100) / 2 ^ 53" unfolding r_def by (rule fl_error)
  then have 2: "r - q * 100 \<le> (q * 100) / 9007199254740992"
      "q * 100 - r \<le> (q * 100) / 9007199254740992"
    unfolding abs_le_iff pw by linarith+
  have "r - 100 * x \<le> 201 / 9007199254740992" "100 * x - r \<le> 201 / 9007199254740992"
    using 1 2 assms by linarith+
  then show ?thesis unfolding abs_le_iff pw r_def q_def by linarith
qed

lemma double_product_error:
  assumes "0 \<le> x" "x \<le> 1"
  shows "\<bar>fl (fl x * 100) - 100 * x\<bar> \<le> 201 / 2 ^ 53"
proof (cases "x = 0")
  case True
  then show ?thesis by (simp add: fl_def)
next
  case False
  with assms have "0 < x" by simp
  then show ?thesis using assms(2) by (rule double_product_error_pos)
qed

lemma nearest_integer:
  fixes p :: rat
  assumes M: "0 < M" "M < 2 ^ 32"
    and p: "\<bar>p - 100 * of_nat N / of_nat M\<bar> \<le> 201 / 2 ^ 53"
  shows "\<bar>of_int \<lfloor>p + 1 / 2\<rfloor> - (100 * of_nat N / of_nat M :: rat)\<bar> \<le> 1 / 2 \<and>
         (frac (100 * of_nat N / of_nat M :: rat) \<noteq> 1 / 2 \<longrightarrow>
            \<lfloor>p + 1 / 2\<rfloor> = \<lfloor>100 * of_nat N / of_nat M + 1 / 2 :: rat\<rfloor>)"
proof -
  define v :: rat where "v = 100 * of_nat N / of_nat M"
  define kv where "kv = \<lfloor>v + 1 / 2\<rfloor>"
  define kp where "kp = \<lfloor>p + 1 / 2\<rfloor>"
  define j :: int where "j = 200 * int N + int M - 2 * int M * kv"
  define h :: rat where "h = 1 / (2 * of_nat M)"
  have pw: "(2::rat) ^ 53 = 9007199254740992" by simp
  have Mr: "(0::rat) < of_nat M" using M by simp
  have jv: "v + 1 / 2 - of_int kv = of_int j * h"
    using Mr by (simp add: j_def v_def h_def field_simps)
  have kv: "of_int kv \<le> v + 1 / 2" "v + 1 / 2 < of_int kv + 1"
    unfolding kv_def by linarith+
  have kp: "of_int kp \<le> p + 1 / 2" "p + 1 / 2 < of_int kp + 1"
    unfolding kp_def by linarith+
  have hpos: "0 < h" using Mr by (simp add: h_def)
  have pv: "p - v \<le> 201 / 9007199254740992" "v - p \<le> 201 / 9007199254740992"
    using p unfolding abs_le_iff pw v_def by linarith+
  have j0: "0 \<le> j"
  proof -
    have "0 \<le> of_int j * h" using jv kv(1) by linarith
    then show ?thesis using hpos by (simp add: zero_le_mult_iff)
  qed
  have h2: "2 * of_nat M * h = 1" using Mr by (simp add: h_def)
  have j1: "j \<le> 2 * int M - 1"
  proof -
    have "of_int j * h < 2 * of_nat M * h" using jv kv(2) h2 by linarith
    then have "(of_int j :: rat) < 2 * of_nat M" using hpos by (simp only: mult_less_cancel_right_pos)
    then have "(of_int j :: rat) < of_int (2 * int M)" by simp
    then have "j < 2 * int M" by (simp only: of_int_less_iff)
    then show ?thesis by simp
  qed
  have small: "201 / 9007199254740992 < h"
  proof -
    have "(of_nat M :: rat) < 2 ^ 32"
      using M(2) by (metis of_nat_less_iff of_nat_numeral of_nat_power)
    then have "2 * (of_nat M :: rat) < 8589934592" by simp
    then have "(1::rat) / 8589934592 < 1 / (2 * of_nat M)" using Mr by (simp add: frac_less2)
    then show ?thesis unfolding h_def by linarith
  qed
  have res: "\<bar>of_int kp - v\<bar> \<le> 1 / 2 \<and> (frac v \<noteq> 1 / 2 \<longrightarrow> kp = kv)"
  proof (cases "j = 0")
    case True
    then have tie: "v + 1 / 2 = of_int kv" using jv by simp
    have "of_int kv - 1 < (of_int kp :: rat) + 1" "(of_int kp :: rat) < of_int kv + 1"
      using tie pv kp by linarith+
    then have "(of_int (kv - 1) :: rat) < of_int (kp + 1)" "(of_int kp :: rat) < of_int (kv + 1)"
      by simp_all
    then have "kv - 1 < kp + 1" "kp < kv + 1" by (simp_all only: of_int_less_iff)
    then have "kp = kv - 1 \<or> kp = kv" by linarith
    then have a: "\<bar>of_int kp - v\<bar> \<le> 1 / 2"
    proof
      assume "kp = kv - 1"
      then have "(of_int kp :: rat) = of_int kv - 1" by simp
      with tie show ?thesis unfolding abs_le_iff by linarith
    next
      assume "kp = kv"
      with tie show ?thesis unfolding abs_le_iff by linarith
    qed
    have vk: "v = of_int (kv - 1) + 1 / 2" using tie by simp
    then have "of_int (kv - 1) \<le> v" "v < of_int (kv - 1) + 1" by linarith+
    then have "\<lfloor>v\<rfloor> = kv - 1" by (rule floor_unique)
    then have "frac v = v - of_int (kv - 1)" by (simp only: frac_def)
    with vk have "frac v = 1 / 2" by linarith
    with a show ?thesis by simp
  next
    case False
    with j0 have "1 \<le> j" by simp
    then have "(1::rat) \<le> of_int j" by simp
    then have "1 * h \<le> of_int j * h" using hpos by (simp only: mult_le_cancel_right_pos)
    then have lo: "h \<le> v + 1 / 2 - of_int kv" using jv by simp
    from j1 have "(of_int j :: rat) \<le> of_int (2 * int M - 1)" by (simp only: of_int_le_iff)
    then have "(of_int j :: rat) \<le> 2 * of_nat M - 1" by simp
    then have "of_int j * h \<le> (2 * of_nat M - 1) * h"
      using hpos by (simp only: mult_le_cancel_right_pos)
    also have "\<dots> = 1 - h" using h2 by (simp add: algebra_simps)
    finally have hi: "v + 1 / 2 - of_int kv \<le> 1 - h" using jv by simp
    from pv lo hi small have "of_int kv \<le> p + 1 / 2" "p + 1 / 2 < of_int kv + 1"
      by linarith+
    then have "kp = kv" unfolding kp_def by (simp add: floor_unique)
    moreover have "\<bar>of_int kv - v\<bar> \<le> 1 / 2" using kv unfolding abs_le_iff by linarith
    ultimately show ?thesis by simp
  qed
  then show ?thesis unfolding kp_def kv_def v_def .
qed

text \<open>
  Claim C4, as the code has it. For a quiz of M questions, M positive and below the
  array-length limit, of which N are answered correctly, \<open>calculateScore\<close> returns N, M
  and a percentage that is a nearest integer to 100 N / M: it is \<open>round (100 N / M)\<close>
  whenever 100 N / M is not exactly halfway between two integers, and one of the two
  neighbours when it is.
\<close>

theorem calculateScore_nearest_percent:
  assumes "0 < length qs" and "length qs < 2 ^ 32"
    and "length (filter isCorrect (userAnswers s)) \<le> length qs"
  shows "correctAnswers (calculateScore qs s) = length (filter isCorrect (userAnswers s)) \<and>
         totalQuestions (calculateScore qs s) = length qs \<and>
         (\<exists>p. percentage (calculateScore qs s) = Some p \<and>
              \<bar>of_int p - (100 * of_nat (length (filter isCorrect (userAnswers s)))
                              / of_nat (length qs) :: rat)\<bar> \<le> 1 / 2 \<and>
              (frac (100 * of_nat (length (filter isCorrect (userAnswers s)))
                       / of_nat (length qs) :: rat) \<noteq> 1 / 2 \<longrightarrow>
                 p = round (100 * of_nat (length (filter isCorrect (userAnswers s)))
                              / of_nat (length qs) :: rat)))"
proof -
  let ?N = "length (filter isCorrect (userAnswers s))"
  let ?M = "length qs"
  let ?x = "of_nat ?N / of_nat ?M :: rat"
  let ?p = "fl (fl ?x * 100)"
  have x: "0 \<le> ?x" "?x \<le> 1" using assms(1,3) by simp_all
  have "\<bar>?p - 100 * ?x\<bar> \<le> 201 / 2 ^ 53" using x by (rule double_product_error)
  then have "\<bar>?p - 100 * of_nat ?N / of_nat ?M\<bar> \<le> 201 / 2 ^ 53" by simp
  from nearest_integer [OF assms(1,2) this]
  have main: "\<bar>of_int (math_round ?p) - (100 * of_nat ?N / of_nat ?M :: rat)\<bar> \<le> 1 / 2 \<and>
        (frac (100 * of_nat ?N / of_nat ?M :: rat) \<noteq> 1 / 2 \<longrightarrow>
           math_round ?p = round (100 * of_nat ?N / of_nat ?M :: rat))"
    unfolding math_round_def round_def by blast
  have pc: "percentage (calculateScore qs s) = Some (math_round ?p)"
    using assms(1) by (simp add: calculateScore_def Let_def)
  have c: "correctAnswers (calculateScore qs s) = ?N" "totalQuestions (calculateScore qs s) = ?M"
    by (simp_all add: calculateScore_def Let_def)
  from main pc c show ?thesis by blast
qed

lemma half_and_half:
  "userAnswers (run two_questions
      [OptionSelect 1, Next, TimerFire, OptionSelect 0, Next, TimerFire] initial_state) =
     [\<lparr>questionIndex = 0, selectedAnswer = 1, isCorrect = True, usedHint = False\<rparr>,
      \<lparr>questionIndex = 1, selectedAnswer = 0, isCorrect = False, usedHint = False\<rparr>]"
  by (simp add: quiz_eval)

theorem calculateScore_nearest_percent_witness:
  "calculateScore two_questions
     (run two_questions
        [OptionSelect 1, Next, TimerFire, OptionSelect 0, Next, TimerFire] initial_state)
   = \<lparr>correctAnswers = 1, totalQuestions = 2, percentage = Some 50\<rparr>"
proof -
  define s where "s = run two_questions
        [OptionSelect 1, Next, TimerFire, OptionSelect 0, Next, TimerFire] initial_state"
  have n: "length (filter isCorrect (userAnswers s)) = 1"
    unfolding s_def half_and_half by simp
  have m: "length two_questions = 2" by (simp add: two_questions_def)
  have 1: "0 < length two_questions" "length two_questions < 2 ^ 32"
    "length (filter isCorrect (userAnswers s)) \<le> length two_questions"
    unfolding n m by simp_all
  have f: "frac (50::rat) = 0" using frac_of_int [of 50, where 'a = rat] by simp
  from calculateScore_nearest_percent [OF 1]
  have "correctAnswers (calculateScore two_questions s) = 1"
    "totalQuestions (calculateScore two_questions s) = 2"
    "percentage (calculateScore two_questions s) = Some 50"
    unfolding n m by (auto simp: f)
  then have "calculateScore two_questions s
      = \<lparr>correctAnswers = 1, totalQuestions = 2, percentage = Some 50\<rparr>"
    by (cases "calculateScore two_questions s") simp
  then show ?thesis unfolding s_def .
qed

text \<open>
  Claim C4 as stated fails: 23 correct answers out of 40 are 57.5 percent,
  \<open>round\<close> gives 58, and the code shows 57, because the double nearest to 23/40 is below
  it and its product with 100 is the double just below 57.5.
\<close>

theorem percent_23_of_40_rounds_down:
  "calculateScore forty_questions answered_23_of_40
     = \<lparr>correctAnswers = 23, totalQuestions = 40, percentage = Some 57\<rparr>
   \<and> round (100 * 23 / 40 :: rat) = 58"
  by code_simp

text \<open>The state of that example is one the component reaches: forty answers, one by one.\<close>

lemma answered_23_of_40_reachable:
  "run forty_questions (concat (map answer_events [0..<40])) initial_state
     = answered_23_of_40\<lparr>selectedOption := Some 0, showAnswer := True\<rparr>"
  by code_simp

lemma run_correct_le:
  "length (filter isCorrect (userAnswers (run qs evs initial_state))) \<le> length qs"
proof -
  let ?uas = "userAnswers (run qs evs initial_state)"
  have "set (map questionIndex ?uas) \<subseteq> {..<length qs}"
    using run_answers_sound [of qs evs] by auto
  then have "card (set (map questionIndex ?uas)) \<le> card {..<length qs}"
    by (intro card_mono) simp_all
  moreover have "card (set (map questionIndex ?uas)) = length ?uas"
    using distinct_card [OF run_distinct [of qs evs]] by simp
  ultimately have "length ?uas \<le> length qs" by simp
  moreover have "length (filter isCorrect ?uas) \<le> length ?uas" by (rule length_filter_le)
  ultimately show ?thesis by linarith
qed

section \<open>Properties of quiz generation\<close>

lemma greedy_close_None: "greedy_close cs = None \<longleftrightarrow> CHR '']'' \<notin> set cs"
  by (induction cs) (auto split: option.splits)

lemma greedy_close_Some:
  "greedy_close cs = Some m \<longleftrightarrow>
     (\<exists>mid post. cs = m @ post \<and> m = mid @ [CHR '']''] \<and> CHR '']'' \<notin> set post)"
proof (induction cs arbitrary: m)
  case Nil
  show ?case by simp
next
  case (Cons c cs)
  show ?case
  proof (cases "greedy_close cs")
    case None
    then have no: "CHR '']'' \<notin> set cs" by (simp add: greedy_close_None)
    show ?thesis
    proof
      assume "greedy_close (c # cs) = Some m"
      with None have "c = CHR '']''" "m = [c]" by (auto split: if_splits)
      with no show "\<exists>mid post. c # cs = m @ post \<and> m = mid @ [CHR '']''] \<and> CHR '']'' \<notin> set post"
        by simp
    next
      assume "\<exists>mid post. c # cs = m @ post \<and> m = mid @ [CHR '']''] \<and> CHR '']'' \<notin> set post"
      then obtain mid post where e: "c # cs = (mid @ [CHR '']'']) @ post" "m = mid @ [CHR '']'']"
        by blast
      have "mid = []"
      proof (cases mid)
        case (Cons a list)
        with e have "CHR '']'' \<in> set cs" by auto
        with no show ?thesis by simp
      qed simp
      with e None show "greedy_close (c # cs) = Some m" by simp
    qed
  next
    case (Some m')
    then obtain mid' post' where m': "cs = m' @ post'" "m' = mid' @ [CHR '']'']" "CHR '']'' \<notin> set post'"
      using Cons.IH by blast
    show ?thesis
    proof
      assume "greedy_close (c # cs) = Some m"
      with Some have "m = c # m'" by simp
      with m' show "\<exists>mid post. c # cs = m @ post \<and> m = mid @ [CHR '']''] \<and> CHR '']'' \<notin> set post"
        by auto
    next
      assume "\<exists>mid post. c # cs = m @ post \<and> m = mid @ [CHR '']''] \<and> CHR '']'' \<notin> set post"
      then obtain mid post where e: "c # cs = m @ post" "m = mid @ [CHR '']'']" "CHR '']'' \<notin> set post"
        by blast
      have "mid \<noteq> []"
      proof
        assume "mid = []"
        with e have "cs = post" by simp
        with e(3) m' show False by auto
      qed
      then obtain mid2 where mid: "mid = c # mid2" using e by (cases mid) auto
      with e have "cs = (mid2 @ [CHR '']'']) @ post" by simp
      with e(3) have "greedy_close cs = Some (mid2 @ [CHR '']''])"
        using Cons.IH [of "mid2 @ [CHR '']'']"] by blast
      with e mid show "greedy_close (c # cs) = Some m" by simp
    qed
  qed
qed

lemma json_match_no_close: "CHR '']'' \<notin> set s \<Longrightarrow> json_match s = None"
proof (induction s)
  case Nil
  show ?case by simp
next
  case (Cons c cs)
  then have "greedy_close cs = None" by (simp add: greedy_close_None)
  with Cons show ?case by simp
qed

lemma json_match_Some:
  "json_match s = Some m \<longleftrightarrow>
     (\<exists>pre mid post. s = pre @ m @ post \<and> m = CHR ''['' # mid @ [CHR '']'']
        \<and> CHR ''['' \<notin> set pre \<and> CHR '']'' \<notin> set post)"
proof (induction s)
  case Nil
  show ?case by simp
next
  case (Cons c cs)
  show ?case
  proof (cases "c = CHR ''[''")
    case False
    have "(\<exists>pre mid post. c # cs = pre @ m @ post \<and> m = CHR ''['' # mid @ [CHR '']'']
        \<and> CHR ''['' \<notin> set pre \<and> CHR '']'' \<notin> set post)
      \<longleftrightarrow> (\<exists>pre mid post. cs = pre @ m @ post \<and> m = CHR ''['' # mid @ [CHR '']'']
        \<and> CHR ''['' \<notin> set pre \<and> CHR '']'' \<notin> set post)" (is "?L \<longleftrightarrow> ?R")
    proof
      assume ?L
      then obtain pre mid post where e: "c # cs = pre @ m @ post" "m = CHR ''['' # mid @ [CHR '']'']"
        "CHR ''['' \<notin> set pre" "CHR '']'' \<notin> set post" by blast
      with False obtain pre' where "pre = c # pre'" by (cases pre) auto
      with e show ?R by auto
    next
      assume ?R
      then obtain pre mid post where e: "cs = pre @ m @ post" "m = CHR ''['' # mid @ [CHR '']'']"
        "CHR ''['' \<notin> set pre" "CHR '']'' \<notin> set post" by blast
      with False have "c # cs = (c # pre) @ m @ post \<and> CHR ''['' \<notin> set (c # pre)" by auto
      with e show ?L by blast
    qed
    with False Cons show ?thesis by simp
  next
    case True
    have pre_nil: "pre = []" if "c # cs = pre @ (CHR ''['' # x)" "CHR ''['' \<notin> set pre" for pre x
      using that True by (cases pre) auto
    show ?thesis
    proof (cases "greedy_close cs")
      case None
      then have no: "CHR '']'' \<notin> set cs" by (simp add: greedy_close_None)
      have "json_match cs = None" using no by (rule json_match_no_close)
      with True None have "json_match (c # cs) = None" by simp
      moreover have "\<not> (\<exists>pre mid post. c # cs = pre @ m @ post \<and> m = CHR ''['' # mid @ [CHR '']'']
        \<and> CHR ''['' \<notin> set pre \<and> CHR '']'' \<notin> set post)"
      proof
        assume "\<exists>pre mid post. c # cs = pre @ m @ post \<and> m = CHR ''['' # mid @ [CHR '']'']
        \<and> CHR ''['' \<notin> set pre \<and> CHR '']'' \<notin> set post"
        then obtain pre mid post where e: "c # cs = pre @ m @ post" "m = CHR ''['' # mid @ [CHR '']'']"
          "CHR ''['' \<notin> set pre" by blast
        then have "pre = []" using pre_nil [of pre "mid @ [CHR '']''] @ post"] by simp
        with e have "cs = mid @ [CHR '']''] @ post" by simp
        with no show False by simp
      qed
      ultimately show ?thesis by simp
    next
      case (Some m')
      with True have jm: "json_match (c # cs) = Some (c # m')" by simp
      from Some obtain mid' post' where m': "cs = m' @ post'" "m' = mid' @ [CHR '']'']" "CHR '']'' \<notin> set post'"
        using greedy_close_Some by blast
      show ?thesis
      proof
        assume "json_match (c # cs) = Some m"
        with jm have "m = c # m'" by simp
        with m' True have "c # cs = [] @ m @ post' \<and> m = CHR ''['' # mid' @ [CHR '']'']" by simp
        with m'(3) show "\<exists>pre mid post. c # cs = pre @ m @ post \<and> m = CHR ''['' # mid @ [CHR '']'']
        \<and> CHR ''['' \<notin> set pre \<and> CHR '']'' \<notin> set post"
          by (metis empty_iff list.set(1))
      next
        assume "\<exists>pre mid post. c # cs = pre @ m @ post \<and> m = CHR ''['' # mid @ [CHR '']'']
        \<and> CHR ''['' \<notin> set pre \<and> CHR '']'' \<notin> set post"
        then obtain pre mid post where e: "c # cs = pre @ m @ post" "m = CHR ''['' # mid @ [CHR '']'']"
          "CHR ''['' \<notin> set pre" "CHR '']'' \<notin> set post" by blast
        then have "pre = []" using pre_nil [of pre "mid @ [CHR '']''] @ post"] by simp
        with e have "cs = (mid @ [CHR '']'']) @ post" by simp
        with e(4) have "greedy_close cs = Some (mid @ [CHR '']''])"
          using greedy_close_Some [of cs "mid @ [CHR '']'']"] by blast
        with Some have "m' = mid @ [CHR '']'']" by simp
        with e True jm show "json_match (c # cs) = Some m" by simp
      qed
    qed
  qed
qed

lemma close_at_depth_shape:
  "close_at_depth d cs = Some m \<Longrightarrow> \<exists>mid post. cs = m @ post \<and> m = mid @ [CHR '']'']"
proof (induction d cs arbitrary: m rule: close_at_depth.induct)
  case (1 d)
  then show ?case by simp
next
  case (2 d c cs)
  show ?case
  proof (cases "c = CHR '']'' \<and> d = 0")
    case True
    with 2(4) have "m = [c]" by simp
    with True show ?thesis by simp
  next
    case False
    let ?d = "if c = CHR '']'' then d - 1 else if c = CHR ''['' then Suc d else d"
    from False 2(4) obtain m' where m': "close_at_depth ?d cs = Some m'" "m = c # m'"
      by (auto split: if_splits)
    then have "\<exists>mid post. cs = m' @ post \<and> m' = mid @ [CHR '']'']"
      using False 2(1,2,3) by (auto split: if_splits)
    with m' show ?thesis by auto
  qed
qed

lemma first_top_level_array_shape:
  "first_top_level_array s = Some a \<Longrightarrow>
     \<exists>pre mid post. s = pre @ a @ post \<and> a = CHR ''['' # mid @ [CHR '']''] \<and> CHR ''['' \<notin> set pre"
proof (induction s)
  case Nil
  then show ?case by simp
next
  case (Cons c cs)
  show ?case
  proof (cases "c = CHR ''[''")
    case True
    with Cons.prems obtain m where m: "close_at_depth 0 cs = Some m" "a = c # m" by auto
    from close_at_depth_shape [OF m(1)] obtain mid post
      where "cs = m @ post" "m = mid @ [CHR '']'']" by blast
    with m True have "c # cs = [] @ a @ post \<and> a = CHR ''['' # mid @ [CHR '']'']" by simp
    then show ?thesis by (metis empty_iff list.set(1))
  next
    case False
    with Cons obtain pre mid post
      where e: "cs = pre @ a @ post" "a = CHR ''['' # mid @ [CHR '']'']" "CHR ''['' \<notin> set pre"
      by auto
    with False have "c # cs = (c # pre) @ a @ post \<and> CHR ''['' \<notin> set (c # pre)" by auto
    with e(2) show ?thesis by blast
  qed
qed

lemma split_at_last_close:
  "\<exists>ext post'. post = ext @ post' \<and> CHR '']'' \<notin> set post' \<and>
      (ext = [] \<or> (\<exists>mid. ext = mid @ [CHR '']'']))"
proof (cases "greedy_close post")
  case None
  then have "CHR '']'' \<notin> set post" by (simp add: greedy_close_None)
  then show ?thesis by auto
next
  case (Some m)
  then show ?thesis using greedy_close_Some [of post m] by blast
qed

text \<open>
  Claim C1, as the code has it. The match is the span from the first opening bracket of
  the text to the last closing bracket of the text, and there is a match exactly when
  such a span exists. When the text has a first top-level array, the match starts with
  it and never ends before it; the match is that array if and only if no closing bracket
  occurs after it.
\<close>

theorem json_match_first_to_last:
  "(json_match s = Some m \<longleftrightarrow>
      (\<exists>pre mid post. s = pre @ m @ post \<and> m = CHR ''['' # mid @ [CHR '']'']
         \<and> CHR ''['' \<notin> set pre \<and> CHR '']'' \<notin> set post)) \<and>
   (first_top_level_array s = Some a \<longrightarrow>
      (\<exists>ext. json_match s = Some (a @ ext)) \<and>
      (json_match s = Some a \<longleftrightarrow>
         (\<exists>pre post. s = pre @ a @ post \<and> CHR ''['' \<notin> set pre \<and> CHR '']'' \<notin> set post)))"
proof (intro conjI impI)
  show "json_match s = Some m \<longleftrightarrow>
      (\<exists>pre mid post. s = pre @ m @ post \<and> m = CHR ''['' # mid @ [CHR '']'']
         \<and> CHR ''['' \<notin> set pre \<and> CHR '']'' \<notin> set post)"
    by (rule json_match_Some)
next
  assume "first_top_level_array s = Some a"
  then obtain pre mid post
    where e: "s = pre @ a @ post" "a = CHR ''['' # mid @ [CHR '']'']" "CHR ''['' \<notin> set pre"
    using first_top_level_array_shape by blast
  obtain ext post' where p: "post = ext @ post'" "CHR '']'' \<notin> set post'"
      "ext = [] \<or> (\<exists>mid. ext = mid @ [CHR '']''])"
    using split_at_last_close [of post] by blast
  have "\<exists>mid'. a @ ext = CHR ''['' # mid' @ [CHR '']'']"
  proof (cases "ext = []")
    case True
    with e(2) show ?thesis by simp
  next
    case False
    with p(3) obtain mid2 where "ext = mid2 @ [CHR '']'']" by blast
    with e(2) have "a @ ext = CHR ''['' # (mid @ [CHR '']''] @ mid2) @ [CHR '']'']" by simp
    then show ?thesis by blast
  qed
  then obtain mid' where "a @ ext = CHR ''['' # mid' @ [CHR '']'']" ..
  moreover have "s = pre @ (a @ ext) @ post'" using e(1) p(1) by simp
  ultimately have "json_match s = Some (a @ ext)"
    using e(3) p(2) json_match_Some [of s "a @ ext"] by blast
  then show "\<exists>ext. json_match s = Some (a @ ext)" ..
next
  assume "first_top_level_array s = Some a"
  then obtain pre mid post
    where e: "s = pre @ a @ post" "a = CHR ''['' # mid @ [CHR '']'']" "CHR ''['' \<notin> set pre"
    using first_top_level_array_shape by blast
  show "json_match s = Some a \<longleftrightarrow>
         (\<exists>pre post. s = pre @ a @ post \<and> CHR ''['' \<notin> set pre \<and> CHR '']'' \<notin> set post)"
    using e(2) json_match_Some [of s a] by blast
qed

theorem json_match_first_to_last_witness:
  "json_match ''Here: [1, [2]] done'' = Some ''[1, [2]]''
   \<and> first_top_level_array ''Here: [1, [2]] done'' = Some ''[1, [2]]''"
proof -
  have f: "first_top_level_array ''Here: [1, [2]] done'' = Some ''[1, [2]]''" by simp
  have "''Here: [1, [2]] done'' = ''Here: '' @ ''[1, [2]]'' @ '' done''" by simp
  moreover have "CHR ''['' \<notin> set ''Here: ''" "CHR '']'' \<notin> set '' done''" by simp_all
  ultimately have "\<exists>pre post. ''Here: [1, [2]] done'' = pre @ ''[1, [2]]'' @ post
      \<and> CHR ''['' \<notin> set pre \<and> CHR '']'' \<notin> set post" by blast
  with f json_match_first_to_last [of "''Here: [1, [2]] done''" "''[1, [2]]''" "''[1, [2]]''"]
  show ?thesis by blast
qed

text \<open>
  Claim C1 as stated fails: a complete array followed by a later closing bracket. The
  match runs on to that bracket and is longer than the first top-level array.
\<close>

theorem json_match_spans_to_last_bracket:
  "first_top_level_array ''[1, 2] and [3]'' = Some ''[1, 2]''
   \<and> json_match ''[1, 2] and [3]'' = Some ''[1, 2] and [3]''
   \<and> json_match ''[1, 2] and [3]'' \<noteq> first_top_level_array ''[1, 2] and [3]''"
  by simp

lemma valid_question_iff: "valid_question q = Inr True \<longleftrightarrow> shallow_question q"
proof (cases q)
  case (JObj kvs)
  have "is_array_of_length 4 v \<longleftrightarrow> (\<exists>os. v = Some (JArr os) \<and> length os = 4)" for v
    by (cases "(4::nat, v)" rule: is_array_of_length.cases) auto
  moreover have "is_number v \<longleftrightarrow> (\<exists>n. v = Some (JNum n))" for v
    by (cases v rule: is_number.cases) auto
  ultimately show ?thesis using JObj by (auto simp: shallow_question_def)
qed (simp_all add: shallow_question_def)

lemma every_valid_iff: "every_valid qs = Inr True \<longleftrightarrow> (\<forall>q \<in> set qs. shallow_question q)"
proof (induction qs)
  case Nil
  show ?case by simp
next
  case (Cons q qs)
  show ?case
  proof (cases "valid_question q")
    case (Inl e)
    then have "\<not> shallow_question q" using valid_question_iff [of q] by simp
    with Inl show ?thesis by simp
  next
    case (Inr ok)
    then have "ok \<longleftrightarrow> shallow_question q" using valid_question_iff [of q] by simp
    with Inr Cons show ?thesis by simp
  qed
qed

text \<open>
  Claim C2, as the code has it. The checks accept a parsed value if and only if it is a
  non-empty array whose every element is an object with a truthy \<open>question\<close>, an
  \<open>options\<close> array of length exactly 4, a \<open>correctAnswerIndex\<close> that is a number, whatever
  its value, and a truthy \<open>hint\<close>.
\<close>

theorem validator_shape_only:
  "validate_questions parsed = Inr qs \<longleftrightarrow>
     parsed = JArr qs \<and> qs \<noteq> [] \<and> (\<forall>q \<in> set qs. shallow_question q)"
proof (cases parsed)
  case (JArr xs)
  show ?thesis
  proof (cases "every_valid xs")
    case (Inl e)
    then have "\<not> (\<forall>q \<in> set xs. shallow_question q)" using every_valid_iff [of xs] by simp
    with Inl JArr show ?thesis by (auto simp: validate_questions_def)
  next
    case (Inr ok)
    then have "ok \<longleftrightarrow> (\<forall>q \<in> set xs. shallow_question q)" using every_valid_iff [of xs] by simp
    with Inr JArr show ?thesis by (auto simp: validate_questions_def)
  qed
qed (simp_all add: validate_questions_def)

theorem validator_shape_only_witness:
  "validate_questions (JArr [question_json 2, question_json (-1)])
     = Inr [question_json 2, question_json (-1)]
   \<and> shallow_question (question_json 2) \<and> shallow_question (question_json (-1))"
  using validator_shape_only
    [of "JArr [question_json 2, question_json (-1)]" "[question_json 2, question_json (-1)]"]
  by (simp add: validate_questions_def question_json_def)

text \<open>
  Claim C2 as stated fails: a well-formed question whose \<open>correctAnswerIndex\<close> is 7 does
  not satisfy the claimed invariants, and the array holding it is accepted.
\<close>

theorem out_of_range_index_accepted:
  "validate_questions (JArr [question_json 7]) = Inr [question_json 7]
   \<and> \<not> in_range_question (question_json 7)"
  by (simp add: validate_questions_def question_json_def in_range_question_def)

lemma gather_content_isGenerating [simp]:
  "gather_content (g\<lparr>isGenerating := b\<rparr>) = gather_content g"
  by (simp add: gather_content_def split: InputType.split option.split)






lemma generation_succeeds_isGenerating [simp]:
  "generation_succeeds w (g\<lparr>isGenerating := b\<rparr>) = generation_succeeds w g"
  by (simp add: generation_succeeds_def fun_eq_iff)




lemma dropWhile_id_hd: "xs = [] \<or> \<not> P (hd xs) \<Longrightarrow> dropWhile P xs = xs"
  by (cases xs) auto

lemma last_dropWhile: "dropWhile P xs \<noteq> [] \<Longrightarrow> last (dropWhile P xs) = last xs"
  by (induction xs) (auto split: if_splits)

lemma trim_idem: "trim (trim s) = trim s"
proof -
  let ?a = "dropWhile is_space s"
  let ?b = "dropWhile is_space (rev ?a)"
  have "rev ?b = [] \<or> \<not> is_space (hd (rev ?b))"
  proof (cases "?b = []")
    case True
    then have "rev ?b = []" by (simp only: rev.simps)
    then show ?thesis ..
  next
    case False
    have ra: "rev ?a \<noteq> []"
    proof
      assume "rev ?a = []"
      then have "?b = []" by (simp only: dropWhile.simps)
      with False show False ..
    qed
    then have a: "?a \<noteq> []" by simp
    have "hd (rev ?b) = last ?b" using False by (simp only: hd_rev)
    also have "\<dots> = last (rev ?a)" using False by (rule last_dropWhile)
    also have "\<dots> = hd ?a" using a by (simp only: last_rev)
    finally have "hd (rev ?b) = hd ?a" .
    moreover have "\<not> is_space (hd ?a)" using a by (rule hd_dropWhile)
    ultimately show ?thesis by simp
  qed
  then have 1: "dropWhile is_space (rev ?b) = rev ?b" by (rule dropWhile_id_hd)
  have 2: "dropWhile is_space (rev (rev ?b)) = ?b"
    by (simp only: rev_rev_ident dropWhile_idem)
  show ?thesis unfolding trim_def 1 2 ..
qed

lemma sublist_drop_front:
  assumes "k \<noteq> []" "\<not> P (hd k)"
  shows "sublist k (dropWhile P s) \<longleftrightarrow> sublist k s"
proof (induction s)
  case Nil
  show ?case by simp
next
  case (Cons a s)
  show ?case
  proof (cases "P a")
    case True
    have "\<not> prefix k (a # s)"
    proof
      assume "prefix k (a # s)"
      with assms(1) have "hd k = a" by (cases k) auto
      with True assms(2) show False by simp
    qed
    then have "sublist k (a # s) \<longleftrightarrow> sublist k s" by (simp add: sublist_Cons_right)
    with True Cons show ?thesis by simp
  next
    case False
    then show ?thesis by simp
  qed
qed

lemma str_includes_trim:
  assumes "k \<noteq> []" "\<not> is_space (hd k)" "\<not> is_space (last k)"
  shows "str_includes (trim s) k \<longleftrightarrow> str_includes s k"
proof -
  let ?a = "dropWhile is_space s"
  have rk: "rev k \<noteq> []" "\<not> is_space (hd (rev k))" using assms by (simp_all add: hd_rev)
  have "sublist k (rev (dropWhile is_space (rev ?a)))
          \<longleftrightarrow> sublist (rev k) (dropWhile is_space (rev ?a))"
    by (metis sublist_rev rev_rev_ident)
  also have "\<dots> \<longleftrightarrow> sublist (rev k) (rev ?a)" using rk by (rule sublist_drop_front)
  also have "\<dots> \<longleftrightarrow> sublist k ?a" by (rule sublist_rev)
  also have "\<dots> \<longleftrightarrow> sublist k s" using assms(1,2) by (rule sublist_drop_front)
  finally show ?thesis by (simp add: str_includes_def trim_def)
qed

lemma keyword_includes_trim:
  "str_includes (trim s) ''easy'' = str_includes s ''easy''"
  "str_includes (trim s) ''simple'' = str_includes s ''simple''"
  "str_includes (trim s) ''hard'' = str_includes s ''hard''"
  "str_includes (trim s) ''difficult'' = str_includes s ''difficult''"
  "str_includes (trim s) ''advanced'' = str_includes s ''advanced''"
  by (rule str_includes_trim; simp add: is_space_def)+

text \<open>
  Claim C10 (the difficulty step). Processing any transcript at the difficulty step stores
  one of easy, medium, hard: easy when the lowercased transcript contains "easy" or
  "simple", whatever else it contains; otherwise hard when it contains "hard",
  "difficult" or "advanced"; medium in every other case.
\<close>

theorem voice_difficulty_total:
  assumes "\<not> isProcessing v" and "conversationStep v = Difficulty"
  shows "difficulty (voiceResponses (processVoiceResponse transcript v)) =
           (if str_includes (toLowerCase transcript) ''easy''
               \<or> str_includes (toLowerCase transcript) ''simple'' then ''easy''
            else if str_includes (toLowerCase transcript) ''hard''
               \<or> str_includes (toLowerCase transcript) ''difficult''
               \<or> str_includes (toLowerCase transcript) ''advanced'' then ''hard''
            else ''medium'')
         \<and> difficulty (voiceResponses (processVoiceResponse transcript v))
             \<in> {''easy'', ''medium'', ''hard''}"
  using assms
  by (simp add: processVoiceResponse_def Let_def difficulty_of_def keyword_includes_trim)

theorem voice_difficulty_total_witness:
  "difficulty (voiceResponses (processVoiceResponse ''Not HARD, make it Easy''
       (idle_voice\<lparr>conversationStep := Difficulty\<rparr>))) = ''easy''"
proof -
  have 1: "\<not> isProcessing (idle_voice\<lparr>conversationStep := Difficulty\<rparr>)"
    by (simp add: idle_voice_def)
  have 2: "conversationStep (idle_voice\<lparr>conversationStep := Difficulty\<rparr>) = Difficulty"
    by simp
  have 3: "str_includes (toLowerCase ''Not HARD, make it Easy'') ''easy''" by code_simp
  from voice_difficulty_total [OF 1 2, of "''Not HARD, make it Easy''"] 3
  show ?thesis by simp
qed

lemma processVoiceResponse_idle [simp]:
  "isProcessing (processVoiceResponse t v) = isProcessing v"
  by (simp add: processVoiceResponse_def updateConversationStep_def Let_def split: conv_step.split)

lemma hear_idle [simp]: "isProcessing (hear said v) = isProcessing v"
  by (simp add: hear_def on_silence_def on_result_def Let_def)

lemma converse_idle: "\<not> isProcessing (converse saids v)"
  unfolding converse_def
  by (induction saids rule: rev_induct) (simp_all add: startVoiceConversation_def updateConversationStep_def)

lemma processVoiceResponse_rank:
  "step_rank (conversationStep v) \<le> step_rank (conversationStep (processVoiceResponse t v)) \<and>
   step_rank (conversationStep (processVoiceResponse t v)) \<le> step_rank (conversationStep v) + 1"
  by (simp add: processVoiceResponse_def updateConversationStep_def Let_def split: conv_step.split)

lemma on_result_step [simp]: "conversationStep (on_result said v) = conversationStep v"
  by (simp add: on_result_def)

lemma on_silence_cases: "on_silence v = v \<or> (\<exists>t. on_silence v = processVoiceResponse t v)"
  by (auto simp: on_silence_def Let_def)

lemma hear_rank:
  "step_rank (conversationStep v) \<le> step_rank (conversationStep (hear said v)) \<and>
   step_rank (conversationStep (hear said v)) \<le> step_rank (conversationStep v) + 1"
proof -
  let ?u = "on_result said v"
  from on_silence_cases [of ?u] show ?thesis
  proof
    assume "on_silence ?u = ?u"
    then show ?thesis by (simp add: hear_def)
  next
    assume "\<exists>t. on_silence ?u = processVoiceResponse t ?u"
    then obtain t where "on_silence ?u = processVoiceResponse t ?u" ..
    then show ?thesis using processVoiceResponse_rank [of ?u t] by (simp add: hear_def)
  qed
qed

lemma converse_snoc: "converse (saids @ [said]) v = hear said (converse saids v)"
  by (simp add: converse_def)

text \<open>
  Claim C7 (the three-step dialogue). For a transcript as the listener hands it over
  (trimmed) and a conversation that is not in the middle of processing: at the topic step
  a transcript of at least 3 characters is stored as the topic and the step becomes
  questions; a shorter one leaves step and responses as they are; at the questions step
  the step becomes difficulty; at the difficulty step the modal is closed and voice input
  is marked complete. A conversation starts at the topic step, is never left in the
  middle of processing, and each utterance leaves the step where it is or moves it to
  the next one in the order topic, questions, difficulty.
\<close>

theorem voice_dialogue_steps:
  assumes "\<not> isProcessing v" and "transcript = trim heard"
  shows "let v' = processVoiceResponse transcript v in
     (conversationStep v = Topic \<and> 3 \<le> length transcript \<longrightarrow>
        conversationStep v' = Questions \<and>
        voiceResponses v' = (voiceResponses v)\<lparr>topic := transcript\<rparr>) \<and>
     (conversationStep v = Topic \<and> length transcript < 3 \<longrightarrow>
        conversationStep v' = Topic \<and> voiceResponses v' = voiceResponses v) \<and>
     (conversationStep v = Questions \<longrightarrow> conversationStep v' = Difficulty) \<and>
     (conversationStep v = Difficulty \<longrightarrow>
        conversationStep v' = Difficulty \<and> \<not> showVoiceModal v' \<and> voiceInputComplete v') \<and>
     conversationStep (converse [] v0) = Topic \<and>
     \<not> isProcessing (converse saids v0) \<and>
     step_rank (conversationStep (converse saids v0))
        \<le> step_rank (conversationStep (converse (saids @ [said]) v0)) \<and>
     step_rank (conversationStep (converse (saids @ [said]) v0))
        \<le> step_rank (conversationStep (converse saids v0)) + 1"
proof -
  have t: "trim transcript = transcript" using assms(2) by (simp add: trim_idem)
  have "conversationStep (converse [] v0) = Topic"
    by (simp add: converse_def startVoiceConversation_def updateConversationStep_def)
  moreover note converse_idle [of saids v0] hear_rank [of "converse saids v0" said]
  ultimately show ?thesis
    using assms(1) t
    by (simp add: processVoiceResponse_def updateConversationStep_def Let_def converse_snoc
        split: conv_step.split)
qed

theorem voice_dialogue_steps_witness:
  "conversationStep (processVoiceResponse ''Roman history'' idle_voice) = Questions
   \<and> topic (voiceResponses (processVoiceResponse ''Roman history'' idle_voice))
       = ''Roman history''
   \<and> processVoiceResponse ''ok'' idle_voice = idle_voice"
proof -
  have 1: "\<not> isProcessing idle_voice" by (simp add: idle_voice_def)
  have 2: "''Roman history'' = trim ''  Roman history ''" by code_simp
  have 3: "''ok'' = trim ''ok''" by code_simp
  have 4: "conversationStep idle_voice = Topic" by (simp add: idle_voice_def)
  have 5: "processVoiceResponse ''ok'' idle_voice = idle_voice" by code_simp
  from voice_dialogue_steps [OF 1 2, of "idle_voice" "[]" "''x''"] 4
  have "conversationStep (processVoiceResponse ''Roman history'' idle_voice) = Questions
     \<and> voiceResponses (processVoiceResponse ''Roman history'' idle_voice)
         = (voiceResponses idle_voice)\<lparr>topic := ''Roman history''\<rparr>"
    by (simp add: Let_def)
  with 5 show ?thesis by simp
qed

end
